theory Spec2Isabelle
  imports Main
begin

section \<open>Closures of the stream engine\<close>

text \<open>
  The engine of \<^verbatim>\<open>src/main.ts\<close> passes functions around and stores them in the
  \<^verbatim>\<open>Set\<close>s of a \<^verbatim>\<open>Subject\<close>. A stored function is represented by the closure
  that the source creates: one constructor per arrow function of the source, holding
  the variables the arrow function captures. Arrow functions that the source creates
  anew at each subscription carry a fresh number, which tells two of them apart as
  JavaScript tells two function objects apart.

  \<^item> \<open>Client k effects\<close> and \<open>ClientC k effects\<close> are the callbacks of an outside
    caller, function object number \<open>k\<close>. A call is recorded in the trace; then the
    callback does what its list of effects says, in order: it calls an Unsubscribe,
    subscribes callbacks to a Subject, calls \<^verbatim>\<open>dispatch\<close> or \<^verbatim>\<open>complete\<close> of a
    Subject, or throws. \<open>Observer k\<close> and \<open>ObserverC k\<close> are the callbacks without
    effects.
  \<^item> \<open>MapFn\<close> and \<open>FilterFn\<close> are the arrow functions of \<^verbatim>\<open>map\<close> and \<^verbatim>\<open>filter\<close>.
  \<^item> \<open>HubDispatch h\<close> and \<open>HubComplete h\<close> are \<^verbatim>\<open>source.dispatch.bind(source)\<close> and
    \<^verbatim>\<open>source.complete.bind(source)\<close> of \<^verbatim>\<open>loop\<close>.
  \<^item> \<open>MergeC cell i c\<close> is the completion arrow function that \<^verbatim>\<open>merge\<close> hands to its
    input number \<open>i\<close>; \<open>cell\<close> names the captured \<^verbatim>\<open>counter\<close> and \<^verbatim>\<open>completed\<close>.
  \<^item> \<open>Noop\<close>, \<open>HubUnsub\<close>, \<open>LoopUnsub\<close> and \<open>MergeUnsub\<close> are the four
    \<^verbatim>\<open>Unsubscribe\<close> functions that the source returns.

  Payloads have one type \<open>'a\<close>, so \<^verbatim>\<open>map\<close> goes from \<open>'a\<close> to \<open>'a\<close>. The functions
  given to \<^verbatim>\<open>map\<close>, \<^verbatim>\<open>filter\<close> and \<^verbatim>\<open>loop\<close> are total and do not throw.
\<close>

datatype 'a dispatch =
    Client nat "'a effect list"
  | MapFn nat "'a \<Rightarrow> 'a" "'a dispatch"
  | FilterFn nat "'a \<Rightarrow> bool" "'a dispatch"
  | HubDispatch nat
and 'a complete =
    ClientC nat "'a effect list"
  | HubComplete nat
  | MergeC nat nat "'a complete"
and 'a unsubscribe =
    Noop
  | HubUnsub nat "'a dispatch" "'a complete"
  | LoopUnsub nat "'a unsubscribe"
  | MergeUnsub "'a unsubscribe list"
and 'a effect =
    Unsubscribes "'a unsubscribe"
  | Subscribes nat "'a dispatch" "'a complete"
  | Emits nat 'a
  | Completes nat
  | Throws

abbreviation Observer :: "nat \<Rightarrow> 'a dispatch" where
  "Observer k \<equiv> Client k []"

abbreviation ObserverC :: "nat \<Rightarrow> 'a complete" where
  "ObserverC k \<equiv> ClientC k []"

text \<open>
  The identity of a function object. Two closures are the same function exactly when
  their identities are equal; the fresh numbers make the identities of closures
  created at different moments differ.
\<close>

datatype ident =
    ObserverId nat
  | ArrowId nat
  | BoundId nat
  | MergeId nat nat

fun dispatch_ident :: "'a dispatch \<Rightarrow> ident" where
  "dispatch_ident (Client k effects) = ObserverId k"
| "dispatch_ident (MapFn i fn d) = ArrowId i"
| "dispatch_ident (FilterFn i fn d) = ArrowId i"
| "dispatch_ident (HubDispatch h) = BoundId h"

fun complete_ident :: "'a complete \<Rightarrow> ident" where
  "complete_ident (ClientC k effects) = ObserverId k"
| "complete_ident (HubComplete h) = BoundId h"
| "complete_ident (MergeC cell i c) = MergeId cell i"

text \<open>
  A \<^verbatim>\<open>Signal\<close> is its \<^verbatim>\<open>subscribe\<close> function; the constructors are the ways the source
  builds one. A \<^verbatim>\<open>Subject\<close> is known by the number of its pair of sets. The handler
  of \<^verbatim>\<open>loop\<close> receives the Subject that \<^verbatim>\<open>loop\<close> creates, so it is a function of that
  number: the identity handler \<^verbatim>\<open>(source) => source\<close> is \<open>\<lambda>source. Subject source\<close>.
\<close>

datatype 'a signal =
    Of "'a list"
  | Map "'a \<Rightarrow> 'a" "'a signal"
  | Filter "'a \<Rightarrow> bool" "'a signal"
  | Loop "nat \<Rightarrow> 'a signal"
  | Merge "'a signal list"
  | Subject nat

section \<open>Promises, microtasks and the state\<close>

datatype 'a pvalue =
    Void
  | Unsub "'a unsubscribe"
  | Unsubs "'a unsubscribe list"

text \<open>
  What runs when a promise is settled: the rest of an \<^verbatim>\<open>async\<close> function after an
  \<^verbatim>\<open>await\<close>, or the element function of \<^verbatim>\<open>Promise.all\<close>.
\<close>

datatype 'a reaction =
    LoopSubscribed nat "nat \<Rightarrow> 'a signal" nat
  | LoopSinkSubscribed nat nat
  | MergeSubscribed nat
  | AllElement nat nat

datatype 'a pstate =
    Pending "'a reaction list"
  | Fulfilled "'a pvalue"
  | Rejected

text \<open>
  The microtasks: the two fan-outs of a Subject, and the reaction of a promise to
  its fulfilment with a value or to its rejection.
\<close>

datatype 'a task =
    FanOut nat 'a nat
  | FanOutC nat nat
  | Reaction "'a reaction" "'a pvalue"
  | Rejection "'a reaction"

text \<open>
  The trace records the calls of client callbacks (\<open>Val\<close>, \<open>Done\<close>), the promises
  fulfilled and rejected, the exceptions that leave a microtask uncaught, and, for
  each \<^verbatim>\<open>merge\<close> subscription, the calls of its completion closures (\<open>Signalled\<close>)
  and its own calls of \<^verbatim>\<open>complete()\<close> (\<open>Merged\<close>).
\<close>

datatype 'a event =
    Val nat 'a
  | Done nat
  | Resolved nat
  | Failed nat
  | Uncaught
  | Signalled nat nat
  | Merged nat

text \<open>
  The state of a run: the next unused number (for Subjects, promises, closures and
  the cells of \<^verbatim>\<open>merge\<close>), the two Sets of each Subject, the variables \<^verbatim>\<open>counter\<close>
  and \<^verbatim>\<open>completed\<close> of each \<^verbatim>\<open>merge\<close> subscription (a JavaScript number that may
  go below zero, and a boolean), the promises, the bookkeeping of \<^verbatim>\<open>Promise.all\<close>,
  the microtask queue, and the trace.

  A \<^verbatim>\<open>Set\<close> is its list of entries in insertion order, as in the language
  definition: \<^verbatim>\<open>delete\<close> leaves an empty entry (\<open>None\<close>) behind, so that a
  \<^verbatim>\<open>forEach\<close> under way keeps its place.
\<close>

record 'a state =
  fresh :: nat
  dispatchs :: "nat \<Rightarrow> 'a dispatch option list"
  completes :: "nat \<Rightarrow> 'a complete option list"
  counter :: "nat \<Rightarrow> int"
  completed :: "nat \<Rightarrow> bool"
  promises :: "nat \<Rightarrow> 'a pstate"
  remaining :: "nat \<Rightarrow> nat"
  elements :: "nat \<Rightarrow> 'a unsubscribe list"
  queue :: "'a task list"
  trace :: "'a event list"

definition init :: "'a state" where
  "init = \<lparr>fresh = 0, dispatchs = (\<lambda>_. []), completes = (\<lambda>_. []),
     counter = (\<lambda>_. 0), completed = (\<lambda>_. False), promises = (\<lambda>_. Pending []),
     remaining = (\<lambda>_. 0), elements = (\<lambda>_. []), queue = [], trace = []\<rparr>"

text \<open>
  The members of a Set, in insertion order. \<^verbatim>\<open>add\<close> of a member changes nothing and
  \<^verbatim>\<open>add\<close> of anything else appends an entry; \<^verbatim>\<open>delete\<close> empties the entry of the
  member. Functions are compared by identity.
\<close>

fun members :: "'b option list \<Rightarrow> 'b list" where
  "members [] = []"
| "members (None # es) = members es"
| "members (Some x # es) = x # members es"

definition set_add :: "('b \<Rightarrow> ident) \<Rightarrow> 'b \<Rightarrow> 'b option list \<Rightarrow> 'b option list" where
  "set_add ident x es = (if ident x \<in> set (map ident (members es)) then es else es @ [Some x])"

fun emptied :: "('b \<Rightarrow> ident) \<Rightarrow> 'b \<Rightarrow> 'b option \<Rightarrow> 'b option" where
  "emptied ident x None = None"
| "emptied ident x (Some y) = (if ident y = ident x then None else Some y)"

definition set_delete :: "('b \<Rightarrow> ident) \<Rightarrow> 'b \<Rightarrow> 'b option list \<Rightarrow> 'b option list" where
  "set_delete ident x es = map (emptied ident x) es"

definition alloc :: "'a state \<Rightarrow> nat \<times> 'a state" where
  "alloc s = (fresh s, s\<lparr>fresh := Suc (fresh s)\<rparr>)"

definition new_promise :: "'a state \<Rightarrow> nat \<times> 'a state" where
  "new_promise s =
     (let (p, s1) = alloc s in (p, s1\<lparr>promises := (promises s1)(p := Pending [])\<rparr>))"

text \<open>\<^verbatim>\<open>queueMicrotask\<close>, and the jobs that a promise queues for its reactions.\<close>

definition enqueue :: "'a task \<Rightarrow> 'a state \<Rightarrow> 'a state" where
  "enqueue t s = s\<lparr>queue := queue s @ [t]\<rparr>"

definition resolve :: "nat \<Rightarrow> 'a pvalue \<Rightarrow> 'a state \<Rightarrow> 'a state" where
  "resolve p v s =
     (case promises s p of
        Pending rs \<Rightarrow>
          s\<lparr>promises := (promises s)(p := Fulfilled v),
            queue := queue s @ map (\<lambda>r. Reaction r v) rs,
            trace := trace s @ [Resolved p]\<rparr>
      | _ \<Rightarrow> s)"

definition reject :: "nat \<Rightarrow> 'a state \<Rightarrow> 'a state" where
  "reject p s =
     (case promises s p of
        Pending rs \<Rightarrow>
          s\<lparr>promises := (promises s)(p := Rejected),
            queue := queue s @ map Rejection rs,
            trace := trace s @ [Failed p]\<rparr>
      | _ \<Rightarrow> s)"

text \<open>
  \<^verbatim>\<open>await p\<close> and \<^verbatim>\<open>p.then(f)\<close> on a native promise: the reaction is queued at once
  when \<open>p\<close> is settled, and kept by \<open>p\<close> otherwise.
\<close>

definition perform_then :: "nat \<Rightarrow> 'a reaction \<Rightarrow> 'a state \<Rightarrow> 'a state" where
  "perform_then p r s =
     (case promises s p of
        Fulfilled v \<Rightarrow> enqueue (Reaction r v) s
      | Rejected \<Rightarrow> enqueue (Rejection r) s
      | Pending rs \<Rightarrow> s\<lparr>promises := (promises s)(p := Pending (rs @ [r]))\<rparr>)"

text \<open>
  \<^verbatim>\<open>Promise.all\<close>: one element function per promise; with no promise the result is
  fulfilled at once with the empty array.
\<close>

definition promise_all :: "nat list \<Rightarrow> 'a state \<Rightarrow> nat \<times> 'a state" where
  "promise_all qs s =
     (let (a, s1) = new_promise s;
          s2 = s1\<lparr>remaining := (remaining s1)(a := length qs),
                  elements := (elements s1)(a := replicate (length qs) Noop)\<rparr>;
          s3 = foldl (\<lambda>s (i, q). perform_then q (AllElement a i) s) s2 (enumerate 0 qs)
      in (a, if qs = [] then resolve a (Unsubs []) s3 else s3))"

section \<open>Subject\<close>

definition new_subject :: "'a state \<Rightarrow> nat \<times> 'a state" where
  "new_subject s =
     (let (h, s1) = alloc s
      in (h, s1\<lparr>dispatchs := (dispatchs s1)(h := []), completes := (completes s1)(h := [])\<rparr>))"

definition subject_subscribe ::
  "nat \<Rightarrow> 'a dispatch \<Rightarrow> 'a complete \<Rightarrow> 'a state \<Rightarrow> nat \<times> 'a state" where
  "subject_subscribe h d c s =
     (let (p, s1) = new_promise s;
          s2 = s1\<lparr>dispatchs := (dispatchs s1)(h := set_add dispatch_ident d (dispatchs s1 h))\<rparr>;
          s3 = s2\<lparr>completes := (completes s2)(h := set_add complete_ident c (completes s2 h))\<rparr>
      in (p, resolve p (Unsub (HubUnsub h d c)) s3))"

definition subject_dispatch :: "nat \<Rightarrow> 'a \<Rightarrow> 'a state \<Rightarrow> nat \<times> 'a state" where
  "subject_dispatch h payload s =
     (let (p, s1) = new_promise s in (p, enqueue (FanOut h payload p) s1))"

definition subject_complete :: "nat \<Rightarrow> 'a state \<Rightarrow> nat \<times> 'a state" where
  "subject_complete h s =
     (let (p, s1) = new_promise s in (p, enqueue (FanOutC h p) s1))"

section \<open>Calling a closure\<close>

fun invoke_unsubscribe :: "'a unsubscribe \<Rightarrow> 'a state \<Rightarrow> 'a state" where
  "invoke_unsubscribe Noop s = s"
| "invoke_unsubscribe (HubUnsub h d c) s =
     (let s1 = s\<lparr>dispatchs := (dispatchs s)(h := set_delete dispatch_ident d (dispatchs s h))\<rparr>
      in s1\<lparr>completes := (completes s1)(h := set_delete complete_ident c (completes s1 h))\<rparr>)"
| "invoke_unsubscribe (LoopUnsub source unsubSink) s =
     invoke_unsubscribe unsubSink (snd (subject_complete source s))"
| "invoke_unsubscribe (MergeUnsub unsubs) s =
     foldl (\<lambda>s unsub. invoke_unsubscribe unsub s) s unsubs"

text \<open>
  A call of a closure gives the new state and whether the call threw. The effects
  of a client callback run in order and stop at a throw.
\<close>

fun run_effects :: "'a effect list \<Rightarrow> 'a state \<Rightarrow> 'a state \<times> bool" where
  "run_effects [] s = (s, False)"
| "run_effects (Unsubscribes u # effects) s = run_effects effects (invoke_unsubscribe u s)"
| "run_effects (Subscribes h d c # effects) s =
     run_effects effects (snd (subject_subscribe h d c s))"
| "run_effects (Emits h payload # effects) s =
     run_effects effects (snd (subject_dispatch h payload s))"
| "run_effects (Completes h # effects) s = run_effects effects (snd (subject_complete h s))"
| "run_effects (Throws # effects) s = (s, True)"

fun invoke_dispatch :: "'a dispatch \<Rightarrow> 'a \<Rightarrow> 'a state \<Rightarrow> 'a state \<times> bool" where
  "invoke_dispatch (Client k effects) payload s =
     run_effects effects (s\<lparr>trace := trace s @ [Val k payload]\<rparr>)"
| "invoke_dispatch (MapFn i fn d) payload s = invoke_dispatch d (fn payload) s"
| "invoke_dispatch (FilterFn i fn d) payload s =
     (if fn payload then invoke_dispatch d payload s else (s, False))"
| "invoke_dispatch (HubDispatch h) payload s = (snd (subject_dispatch h payload s), False)"

fun invoke_complete :: "'a complete \<Rightarrow> 'a state \<Rightarrow> 'a state \<times> bool" where
  "invoke_complete (ClientC k effects) s = run_effects effects (s\<lparr>trace := trace s @ [Done k]\<rparr>)"
| "invoke_complete (HubComplete h) s = (snd (subject_complete h s), False)"
| "invoke_complete (MergeC cell i c) s =
     (let s1 = s\<lparr>counter := (counter s)(cell := counter s cell - 1),
                 trace := trace s @ [Signalled cell i]\<rparr>
      in if counter s1 cell \<le> 0 \<and> \<not> completed s1 cell
         then (case invoke_complete c (s1\<lparr>trace := trace s1 @ [Merged cell]\<rparr>) of
                 (s2, True) \<Rightarrow> (s2, True)
               | (s2, False) \<Rightarrow> (s2\<lparr>completed := (completed s2)(cell := True)\<rparr>, False))
         else (s1, False))"

section \<open>Set.forEach\<close>

text \<open>
  \<^verbatim>\<open>forEach\<close> walks the entries of the Set by position and reads the Set anew at
  each step: an entry emptied before it is reached is skipped, an entry appended
  during the walk is reached. To see that the walk ends, each closure is given the
  weight of the entries that a call of it can append (one per \<open>Subscribes\<close> among its
  effects, plus the weight of the callback subscribed), and each list of entries
  its potential: its length plus the weights of its members.
\<close>

fun dweight :: "'a dispatch \<Rightarrow> nat" and dadds :: "'a effect list \<Rightarrow> nat" where
  "dweight (Client k effects) = dadds effects"
| "dweight (MapFn i fn d) = dweight d"
| "dweight (FilterFn i fn d) = dweight d"
| "dweight (HubDispatch h) = 0"
| "dadds [] = 0"
| "dadds (Subscribes h d c # effects) = Suc (dweight d) + dadds effects"
| "dadds (Unsubscribes u # effects) = dadds effects"
| "dadds (Emits h payload # effects) = dadds effects"
| "dadds (Completes h # effects) = dadds effects"
| "dadds (Throws # effects) = dadds effects"

fun cweight :: "'a complete \<Rightarrow> nat" and cadds :: "'a effect list \<Rightarrow> nat" where
  "cweight (ClientC k effects) = cadds effects"
| "cweight (HubComplete h) = 0"
| "cweight (MergeC cell i c) = cweight c"
| "cadds [] = 0"
| "cadds (Subscribes h d c # effects) = Suc (cweight c) + cadds effects"
| "cadds (Unsubscribes u # effects) = cadds effects"
| "cadds (Emits h payload # effects) = cadds effects"
| "cadds (Completes h # effects) = cadds effects"
| "cadds (Throws # effects) = cadds effects"

fun potential :: "('b \<Rightarrow> nat) \<Rightarrow> 'b option list \<Rightarrow> nat" where
  "potential w [] = 0"
| "potential w (None # es) = Suc (potential w es)"
| "potential w (Some x # es) = Suc (w x + potential w es)"

definition grows :: "('b \<Rightarrow> nat) \<Rightarrow> nat \<Rightarrow> 'b option list \<Rightarrow> 'b option list \<Rightarrow> bool" where
  "grows w k es es' \<longleftrightarrow>
     length es \<le> length es' \<and>
     (\<forall>n \<le> length es. potential w (drop n es') \<le> potential w (drop n es) + k)"

lemma grows_refl: "grows w 0 es es"
  by (simp add: grows_def)

lemma grows_trans:
  assumes "grows w j es es'" and "grows w k es' es''"
  shows "grows w (j + k) es es''"
proof -
  have "potential w (drop n es'') \<le> potential w (drop n es) + (j + k)" if "n \<le> length es" for n
  proof -
    from that assms have "potential w (drop n es') \<le> potential w (drop n es) + j"
      and "potential w (drop n es'') \<le> potential w (drop n es') + k"
      unfolding grows_def by auto
    then show ?thesis by linarith
  qed
  with assms show ?thesis unfolding grows_def by auto
qed

lemma grows_mono: "grows w j es es' \<Longrightarrow> j \<le> k \<Longrightarrow> grows w k es es'"
  unfolding grows_def by (auto intro: le_trans)

lemma potential_append: "potential w (es @ fs) = potential w es + potential w fs"
  by (induction w es rule: potential.induct) simp_all

lemma grows_add: "grows w (Suc (w x)) es (set_add ident x es)"
  unfolding grows_def set_add_def by (simp add: potential_append)

lemma potential_emptied:
  "potential w (drop n (map (emptied ident x) es)) \<le> potential w (drop n es)"
proof (induction es arbitrary: n)
  case Nil
  then show ?case by simp
next
  case (Cons e es)
  show ?case
  proof (cases n)
    case 0
    with Cons[of 0] show ?thesis by (cases e) simp_all
  next
    case (Suc m)
    with Cons[of m] show ?thesis by simp
  qed
qed

lemma grows_delete: "grows w 0 es (set_delete ident x es)"
  unfolding grows_def set_delete_def by (simp add: potential_emptied)

lemma subject_subscribe_state:
  "subject_subscribe h d c s =
     (fresh s, s\<lparr>fresh := Suc (fresh s),
        dispatchs := (dispatchs s)(h := set_add dispatch_ident d (dispatchs s h)),
        completes := (completes s)(h := set_add complete_ident c (completes s h)),
        promises := (promises s)(fresh s := Fulfilled (Unsub (HubUnsub h d c))),
        trace := trace s @ [Resolved (fresh s)]\<rparr>)"
  by (simp add: subject_subscribe_def new_promise_def alloc_def resolve_def Let_def)

lemma subject_dispatch_state:
  "subject_dispatch h v s =
    (fresh s, s\<lparr>fresh := Suc (fresh s), promises := (promises s)(fresh s := Pending []),
       queue := queue s @ [FanOut h v (fresh s)]\<rparr>)"
  by (simp add: subject_dispatch_def new_promise_def alloc_def enqueue_def)

lemma subject_complete_state:
  "subject_complete h s =
    (fresh s, s\<lparr>fresh := Suc (fresh s), promises := (promises s)(fresh s := Pending []),
       queue := queue s @ [FanOutC h (fresh s)]\<rparr>)"
  by (simp add: subject_complete_def new_promise_def alloc_def enqueue_def)

lemma unsubscribe_grows:
  "grows dweight 0 (dispatchs s h) (dispatchs (invoke_unsubscribe u s) h)
   \<and> grows cweight 0 (completes s h) (completes (invoke_unsubscribe u s) h)"
proof (induction u s rule: invoke_unsubscribe.induct)
  case (1 s)
  show ?case by (simp add: grows_refl)
next
  case (2 g d c s)
  show ?case by (simp add: Let_def grows_refl grows_delete)
next
  case (3 source unsubSink s)
  then show ?case by (simp add: subject_complete_state)
next
  case (4 unsubs s)
  then show ?case
  proof (induction unsubs arbitrary: s)
    case Nil
    show ?case by (simp add: grows_refl)
  next
    case (Cons u us)
    have 1: "grows dweight 0 (dispatchs s h) (dispatchs (invoke_unsubscribe u s) h)
      \<and> grows cweight 0 (completes s h) (completes (invoke_unsubscribe u s) h)"
      by (rule Cons.prems) simp
    have 2: "grows dweight 0 (dispatchs (invoke_unsubscribe u s) h)
        (dispatchs (invoke_unsubscribe (MergeUnsub us) (invoke_unsubscribe u s)) h)
      \<and> grows cweight 0 (completes (invoke_unsubscribe u s) h)
        (completes (invoke_unsubscribe (MergeUnsub us) (invoke_unsubscribe u s)) h)"
      by (rule Cons.IH) (rule Cons.prems, simp)
    from 1 2 grows_trans[of dweight 0 _ _ 0] grows_trans[of cweight 0 _ _ 0]
    show ?case by simp blast
  qed
qed

lemma effects_grows:
  "grows dweight (dadds effects) (dispatchs s h) (dispatchs (fst (run_effects effects s)) h)
   \<and> grows cweight (cadds effects) (completes s h) (completes (fst (run_effects effects s)) h)"
proof (induction effects s rule: run_effects.induct)
  case (1 s)
  show ?case by (simp add: grows_refl)
next
  case (2 u effects s)
  from unsubscribe_grows[of s h u] "2"
    grows_trans[of dweight 0 _ _ "dadds effects"] grows_trans[of cweight 0 _ _ "cadds effects"]
  show ?case by simp blast
next
  case (3 g d c effects s)
  let ?s1 = "snd (subject_subscribe g d c s)"
  have d1: "grows dweight (Suc (dweight d)) (dispatchs s h) (dispatchs ?s1 h)"
    by (cases "g = h")
      (simp_all add: subject_subscribe_state grows_add grows_mono[OF grows_refl])
  have c1: "grows cweight (Suc (cweight c)) (completes s h) (completes ?s1 h)"
    by (cases "g = h")
      (simp_all add: subject_subscribe_state grows_add grows_mono[OF grows_refl])
  from grows_trans[OF d1] grows_trans[OF c1] "3" show ?case by simp
next
  case (4 g payload effects s)
  then show ?case by (simp add: subject_dispatch_state)
next
  case (5 g effects s)
  then show ?case by (simp add: subject_complete_state)
next
  case (6 effects s)
  show ?case by (simp add: grows_mono[OF grows_refl])
qed

lemma invoke_dispatch_grows:
  "grows dweight (dweight d) (dispatchs s h) (dispatchs (fst (invoke_dispatch d v s)) h)"
proof (induction d v s rule: invoke_dispatch.induct)
  case (1 k effects v s)
  from effects_grows[of effects "s\<lparr>trace := trace s @ [Val k v]\<rparr>" h]
  show ?case by simp
next
  case (2 i fn d v s)
  then show ?case by simp
next
  case (3 i fn d v s)
  then show ?case by (simp add: grows_mono[OF grows_refl])
next
  case (4 g v s)
  show ?case by (simp add: subject_dispatch_state grows_refl)
qed

lemma invoke_complete_grows:
  "grows cweight (cweight c) (completes s h) (completes (fst (invoke_complete c s)) h)"
proof (induction c s rule: invoke_complete.induct)
  case (1 k effects s)
  from effects_grows[of effects "s\<lparr>trace := trace s @ [Done k]\<rparr>" h]
  show ?case by simp
next
  case (2 g s)
  show ?case by (simp add: subject_complete_state grows_refl)
next
  case (3 cell i c s)
  let ?s1 = "s\<lparr>counter := (counter s)(cell := counter s cell - 1),
                 trace := trace s @ [Signalled cell i]\<rparr>"
  let ?s2 = "?s1\<lparr>trace := trace ?s1 @ [Merged cell]\<rparr>"
  show ?case
  proof (cases "counter ?s1 cell \<le> 0 \<and> \<not> completed ?s1 cell")
    case True
    from "3"[OF refl True] have "grows cweight (cweight c) (completes s h)
        (completes (fst (invoke_complete c ?s2)) h)" by simp
    with True show ?thesis
      by (cases "invoke_complete c ?s2") (auto simp: Let_def split: bool.splits)
  next
    case False
    then show ?thesis by (auto simp: Let_def grows_mono[OF grows_refl])
  qed
qed

lemma potential_step:
  "i < length es \<Longrightarrow> potential w (drop i es)
     = Suc ((case es ! i of None \<Rightarrow> 0 | Some x \<Rightarrow> w x) + potential w (drop (Suc i) es))"
  by (subst Cons_nth_drop_Suc[symmetric], assumption) (cases "es ! i", simp_all)

text \<open>
  The two \<^verbatim>\<open>forEach\<close> loops of \<^verbatim>\<open>Subject\<close>. An exception ends the loop and leaves it.
\<close>

function for_each_dispatch :: "nat \<Rightarrow> nat \<Rightarrow> 'a \<Rightarrow> 'a state \<Rightarrow> 'a state \<times> bool" where
  "for_each_dispatch h i payload s =
     (if i < length (dispatchs s h)
      then (case dispatchs s h ! i of
              None \<Rightarrow> for_each_dispatch h (Suc i) payload s
            | Some d \<Rightarrow>
                (case invoke_dispatch d payload s of
                   (s1, True) \<Rightarrow> (s1, True)
                 | (s1, False) \<Rightarrow> for_each_dispatch h (Suc i) payload s1))
      else (s, False))"
  by pat_completeness auto
termination
proof (relation "measure (\<lambda>(h, i, payload, s). potential dweight (drop i (dispatchs s h)))")
  show "wf (measure (\<lambda>(h, i, payload, s). potential dweight (drop i (dispatchs s h))))"
    by simp
next
  fix h i and payload :: 'a and s :: "'a state"
  assume "i < length (dispatchs s h)" "dispatchs s h ! i = None"
  then show "((h, Suc i, payload, s), (h, i, payload, s))
      \<in> measure (\<lambda>(h, i, payload, s). potential dweight (drop i (dispatchs s h)))"
    by (simp add: potential_step)
next
  fix h i and payload :: 'a and s :: "'a state" and d s1 b
  assume i: "i < length (dispatchs s h)" and d: "dispatchs s h ! i = Some d"
    and x: "(s1, b) = invoke_dispatch d payload s"
  from invoke_dispatch_grows[of d s h payload] x[symmetric] i
  have "potential dweight (drop (Suc i) (dispatchs s1 h))
      \<le> potential dweight (drop (Suc i) (dispatchs s h)) + dweight d"
    unfolding grows_def by (simp add: Suc_leI)
  with i d show "((h, Suc i, payload, s1), (h, i, payload, s))
      \<in> measure (\<lambda>(h, i, payload, s). potential dweight (drop i (dispatchs s h)))"
    by (simp add: potential_step)
qed

function for_each_complete :: "nat \<Rightarrow> nat \<Rightarrow> 'a state \<Rightarrow> 'a state \<times> bool" where
  "for_each_complete h i s =
     (if i < length (completes s h)
      then (case completes s h ! i of
              None \<Rightarrow> for_each_complete h (Suc i) s
            | Some c \<Rightarrow>
                (case invoke_complete c s of
                   (s1, True) \<Rightarrow> (s1, True)
                 | (s1, False) \<Rightarrow> for_each_complete h (Suc i) s1))
      else (s, False))"
  by pat_completeness auto
termination
proof (relation "measure (\<lambda>(h, i, s). potential cweight (drop i (completes s h)))")
  show "wf (measure (\<lambda>(h, i, s). potential cweight (drop i (completes s h))))"
    by simp
next
  fix h i and s :: "'a state"
  assume "i < length (completes s h)" "completes s h ! i = None"
  then show "((h, Suc i, s), (h, i, s))
      \<in> measure (\<lambda>(h, i, s). potential cweight (drop i (completes s h)))"
    by (simp add: potential_step)
next
  fix h i and s :: "'a state" and c s1 b
  assume i: "i < length (completes s h)" and c: "completes s h ! i = Some c"
    and x: "(s1, b) = invoke_complete c s"
  from invoke_complete_grows[of c s h] x[symmetric] i
  have "potential cweight (drop (Suc i) (completes s1 h))
      \<le> potential cweight (drop (Suc i) (completes s h)) + cweight c"
    unfolding grows_def by (simp add: Suc_leI)
  with i c show "((h, Suc i, s1), (h, i, s))
      \<in> measure (\<lambda>(h, i, s). potential cweight (drop i (completes s h)))"
    by (simp add: potential_step)
qed

declare for_each_dispatch.simps [simp del]

declare for_each_complete.simps [simp del]

section \<open>Signal.subscribe\<close>

text \<open>The \<^verbatim>\<open>for\<close> loop of \<^verbatim>\<open>of\<close>; an exception ends it.\<close>

fun dispatch_all :: "'a dispatch \<Rightarrow> 'a list \<Rightarrow> 'a state \<Rightarrow> 'a state \<times> bool" where
  "dispatch_all d [] s = (s, False)"
| "dispatch_all d (payload # payloads) s =
     (case invoke_dispatch d payload s of
        (s1, True) \<Rightarrow> (s1, True)
      | (s1, False) \<Rightarrow> dispatch_all d payloads s1)"

text \<open>
  The part of each \<^verbatim>\<open>subscribe\<close> function that runs before its first \<^verbatim>\<open>await\<close>; the
  result is the promise it returns. \<^verbatim>\<open>map\<close> and \<^verbatim>\<open>filter\<close> are not \<^verbatim>\<open>async\<close> and
  return the promise of the signal they wrap. An exception inside an \<^verbatim>\<open>async\<close>
  function rejects its promise.
\<close>

fun subscribe :: "'a signal \<Rightarrow> 'a dispatch \<Rightarrow> 'a complete \<Rightarrow> 'a state \<Rightarrow> nat \<times> 'a state"
  and subscribe_all ::
    "'a signal list \<Rightarrow> nat \<Rightarrow> 'a dispatch \<Rightarrow> nat \<Rightarrow> 'a complete \<Rightarrow> 'a state
       \<Rightarrow> nat list \<times> 'a state"
where
  "subscribe (Subject h) d c s = subject_subscribe h d c s"
| "subscribe (Of payloads) d c s =
     (let (p, s1) = new_promise s
      in case dispatch_all d payloads s1 of
           (s2, True) \<Rightarrow> (p, reject p s2)
         | (s2, False) \<Rightarrow>
             (case invoke_complete c s2 of
                (s3, True) \<Rightarrow> (p, reject p s3)
              | (s3, False) \<Rightarrow> (p, resolve p (Unsub Noop) s3)))"
| "subscribe (Map fn sig) d c s =
     (let (i, s1) = alloc s in subscribe sig (MapFn i fn d) c s1)"
| "subscribe (Filter fn sig) d c s =
     (let (i, s1) = alloc s in subscribe sig (FilterFn i fn d) c s1)"
| "subscribe (Loop handler) d c s =
     (let (p, s1) = new_promise s;
          (source, s2) = new_subject s1;
          (q, s3) = subject_subscribe source d c s2
      in (p, perform_then q (LoopSubscribed source handler p) s3))"
| "subscribe (Merge signals) d c s =
     (let (p, s1) = new_promise s;
          (cell, s2) = alloc s1;
          s3 = s2\<lparr>counter := (counter s2)(cell := int (length signals)),
                  completed := (completed s2)(cell := False)\<rparr>;
          (qs, s4) = subscribe_all signals 0 d cell c s3;
          (a, s5) = promise_all qs s4
      in (p, perform_then a (MergeSubscribed p) s5))"
| "subscribe_all [] i d cell c s = ([], s)"
| "subscribe_all (sig # sigs) i d cell c s =
     (let (q, s1) = subscribe sig d (MergeC cell i c) s;
          (qs, s2) = subscribe_all sigs (Suc i) d cell c s1
      in (q # qs, s2))"

section \<open>The microtask queue\<close>

fun run_reaction :: "'a reaction \<Rightarrow> 'a pvalue \<Rightarrow> 'a state \<Rightarrow> 'a state" where
  "run_reaction (LoopSubscribed source handler p) v s =
     (let sink = handler source;
          (q, s1) = subscribe sink (HubDispatch source) (HubComplete source) s
      in perform_then q (LoopSinkSubscribed source p) s1)"
| "run_reaction (LoopSinkSubscribed source p) v s =
     (case v of
        Unsub unsubSink \<Rightarrow> resolve p (Unsub (LoopUnsub source unsubSink)) s
      | _ \<Rightarrow> s)"
| "run_reaction (AllElement a i) v s =
     (case v of
        Unsub u \<Rightarrow>
          (let s1 = s\<lparr>elements := (elements s)(a := (elements s a)[i := u]),
                      remaining := (remaining s)(a := remaining s a - 1)\<rparr>
           in if remaining s1 a = 0 then resolve a (Unsubs (elements s1 a)) s1 else s1)
      | _ \<Rightarrow> s)"
| "run_reaction (MergeSubscribed p) v s =
     (case v of
        Unsubs unsubs \<Rightarrow> resolve p (Unsub (MergeUnsub unsubs)) s
      | _ \<Rightarrow> s)"

text \<open>
  A rejected promise makes the \<^verbatim>\<open>await\<close> throw, which rejects the promise of the
  \<^verbatim>\<open>async\<close> function; \<^verbatim>\<open>Promise.all\<close> rejects its result.
\<close>

fun run_rejection :: "'a reaction \<Rightarrow> 'a state \<Rightarrow> 'a state" where
  "run_rejection (LoopSubscribed source handler p) s = reject p s"
| "run_rejection (LoopSinkSubscribed source p) s = reject p s"
| "run_rejection (AllElement a i) s = reject a s"
| "run_rejection (MergeSubscribed p) s = reject p s"

text \<open>
  \<open>FanOut\<close> and \<open>FanOutC\<close> are the functions that \<^verbatim>\<open>dispatch\<close> and \<^verbatim>\<open>complete\<close> hand
  to \<^verbatim>\<open>queueMicrotask\<close>: \<^verbatim>\<open>forEach\<close> over the Set, then \<^verbatim>\<open>resolve()\<close>. When a
  callback throws, the exception leaves the microtask and \<^verbatim>\<open>resolve()\<close> is not
  reached.
\<close>

fun run_task :: "'a task \<Rightarrow> 'a state \<Rightarrow> 'a state" where
  "run_task (FanOut h payload p) s =
     (case for_each_dispatch h 0 payload s of
        (s1, True) \<Rightarrow> s1\<lparr>trace := trace s1 @ [Uncaught]\<rparr>
      | (s1, False) \<Rightarrow> resolve p Void s1)"
| "run_task (FanOutC h p) s =
     (case for_each_complete h 0 s of
        (s1, True) \<Rightarrow> s1\<lparr>trace := trace s1 @ [Uncaught]\<rparr>
      | (s1, False) \<Rightarrow> resolve p Void s1)"
| "run_task (Reaction r v) s = run_reaction r v s"
| "run_task (Rejection r) s = run_rejection r s"

text \<open>
  One turn of the event loop runs the first microtask of the queue; \<open>run n\<close> is \<open>n\<close>
  turns. A cycle built with \<^verbatim>\<open>loop\<close> can keep the queue busy forever, so a run is
  bounded by the number of turns.
\<close>

definition step :: "'a state \<Rightarrow> 'a state" where
  "step s = (case queue s of [] \<Rightarrow> s | t # ts \<Rightarrow> run_task t (s\<lparr>queue := ts\<rparr>))"

fun run :: "nat \<Rightarrow> 'a state \<Rightarrow> 'a state" where
  "run 0 s = s"
| "run (Suc n) s = run n (step s)"

section \<open>What an outside observer sees\<close>

text \<open>The payloads that the trace delivers to client callback \<open>k\<close>, in order.\<close>

fun observed :: "nat \<Rightarrow> 'a event list \<Rightarrow> 'a list" where
  "observed k [] = []"
| "observed k (Val j v # es) = (if j = k then v # observed k es else observed k es)"
| "observed k (e # es) = observed k es"

text \<open>How often the trace calls the client completion callback \<open>k\<close>.\<close>

fun completions :: "nat \<Rightarrow> 'a event list \<Rightarrow> nat" where
  "completions k [] = 0"
| "completions k (Done j # es) = (if j = k then Suc (completions k es) else completions k es)"
| "completions k (e # es) = completions k es"

text \<open>
  How often, in the trace, an input of the \<^verbatim>\<open>merge\<close> subscription \<open>cell\<close> signals
  completion, and how often that subscription calls its own \<^verbatim>\<open>complete()\<close>.
\<close>

fun signals :: "nat \<Rightarrow> 'a event list \<Rightarrow> nat" where
  "signals cell [] = 0"
| "signals cell (Signalled x i # es) = (if x = cell then Suc (signals cell es) else signals cell es)"
| "signals cell (e # es) = signals cell es"

fun merges :: "nat \<Rightarrow> 'a event list \<Rightarrow> nat" where
  "merges cell [] = 0"
| "merges cell (Merged x # es) = (if x = cell then Suc (merges cell es) else merges cell es)"
| "merges cell (e # es) = merges cell es"

text \<open>The payloads of the emissions of Subject \<open>h\<close> that wait in a queue, in order.\<close>

fun pending :: "nat \<Rightarrow> 'a task list \<Rightarrow> 'a list" where
  "pending h [] = []"
| "pending h (FanOut h' v p # ts) = (if h' = h then v # pending h ts else pending h ts)"
| "pending h (t # ts) = pending h ts"

section \<open>Scenarios\<close>

text \<open>A state with one Subject, numbered 0, and nothing else.\<close>

definition one_subject :: "'a state" where
  "one_subject = snd (new_subject init)"

text \<open>
  The state once a subscription of observer \<open>k\<close> to \<^verbatim>\<open>loop((source) => source)\<close> has
  run its two \<^verbatim>\<open>await\<close>s; the Subject of the loop has number 1.
\<close>

definition identity_loop :: "nat \<Rightarrow> 'a state" where
  "identity_loop k =
     run 2 (snd (subscribe (Loop (\<lambda>source. Subject source)) (Observer k) (ObserverC k) init))"

text \<open>Calling \<^verbatim>\<open>dispatch\<close> of Subject \<open>h\<close> with each payload of \<open>vs\<close> in turn.\<close>

definition inject :: "nat \<Rightarrow> 'a list \<Rightarrow> 'a state \<Rightarrow> 'a state" where
  "inject h vs s = foldl (\<lambda>s v. snd (subject_dispatch h v s)) s vs"

text \<open>
  The states of a cycle through Subject \<open>h\<close> in which the payloads \<open>vs\<close> circulate:
  the Subject feeds observer \<open>k\<close> and itself, and the queue holds one emission per
  payload, each with a promise of its own that nobody waits for.
\<close>

definition cycling :: "nat \<Rightarrow> nat \<Rightarrow> 'a list \<Rightarrow> 'a state \<Rightarrow> bool" where
  "cycling h k vs s \<longleftrightarrow>
     dispatchs s h = [Some (Observer k), Some (HubDispatch h)] \<and>
     (\<exists>ps. length ps = length vs \<and> queue s = map (\<lambda>(v, p). FanOut h v p) (zip vs ps)
        \<and> distinct ps \<and> (\<forall>p \<in> set ps. promises s p = Pending [] \<and> p < fresh s))"

text \<open>
  The callbacks that, when called, neither subscribe to Subject \<open>h\<close> nor unsubscribe
  from it nor throw. They may do anything else: emit or complete on any Subject,
  \<open>h\<close> included, and subscribe to or unsubscribe from another Subject.
\<close>

fun unsub_keeps :: "nat \<Rightarrow> 'a unsubscribe \<Rightarrow> bool" where
  "unsub_keeps h Noop = True"
| "unsub_keeps h (HubUnsub g d c) = (g \<noteq> h)"
| "unsub_keeps h (LoopUnsub source u) = unsub_keeps h u"
| "unsub_keeps h (MergeUnsub us) = list_all (unsub_keeps h) us"

fun effect_keeps :: "nat \<Rightarrow> 'a effect \<Rightarrow> bool" where
  "effect_keeps h (Unsubscribes u) = unsub_keeps h u"
| "effect_keeps h (Subscribes g d c) = (g \<noteq> h)"
| "effect_keeps h (Emits g payload) = True"
| "effect_keeps h (Completes g) = True"
| "effect_keeps h Throws = False"

fun keeps :: "nat \<Rightarrow> 'a dispatch \<Rightarrow> bool" where
  "keeps h (Client k effects) = list_all (effect_keeps h) effects"
| "keeps h (MapFn i fn d) = keeps h d"
| "keeps h (FilterFn i fn d) = keeps h d"
| "keeps h (HubDispatch g) = True"

fun keeps_c :: "nat \<Rightarrow> 'a complete \<Rightarrow> bool" where
  "keeps_c h (ClientC k effects) = list_all (effect_keeps h) effects"
| "keeps_c h (HubComplete g) = True"
| "keeps_c h (MergeC cell i c) = keeps_c h c"

section \<open>Basic facts\<close>

lemma observed_append: "observed k (xs @ ys) = observed k xs @ observed k ys"
  by (induction k xs rule: observed.induct) simp_all

lemma completions_append: "completions k (xs @ ys) = completions k xs + completions k ys"
  by (induction k xs rule: completions.induct) simp_all

lemma signals_append: "signals x (xs @ ys) = signals x xs + signals x ys"
  by (induction x xs rule: signals.induct) simp_all

lemma merges_append: "merges x (xs @ ys) = merges x xs + merges x ys"
  by (induction x xs rule: merges.induct) simp_all

lemma observed_vals: "observed k (map (Val k) vs) = vs"
  by (induction vs) simp_all

lemma completions_vals: "completions k (map (Val j) vs) = 0"
  by (induction vs) simp_all

lemma step_idle: "queue s = [] \<Longrightarrow> step s = s"
  by (simp add: step_def)

lemma run_idle: "queue s = [] \<Longrightarrow> run n s = s"
  by (induction n) (simp_all add: step_idle)

lemma run_add: "run (m + n) s = run n (run m s)"
  by (induction m arbitrary: s) simp_all

lemma resolve_pending:
  "promises s p = Pending rs \<Longrightarrow>
   resolve p v s = s\<lparr>promises := (promises s)(p := Fulfilled v),
            queue := queue s @ map (\<lambda>r. Reaction r v) rs,
            trace := trace s @ [Resolved p]\<rparr>"
  by (simp add: resolve_def)

lemma resolve_sets [simp]:
  "dispatchs (resolve p v s) = dispatchs s" "completes (resolve p v s) = completes s"
  by (simp_all add: resolve_def split: pstate.splits)

lemma reject_sets [simp]:
  "dispatchs (reject p s) = dispatchs s" "completes (reject p s) = completes s"
  by (simp_all add: reject_def split: pstate.splits)

lemmas scenario_defs =
  subject_dispatch_state subject_complete_state subject_subscribe_state
  set_add_def set_delete_def one_subject_def new_subject_def alloc_def init_def

section \<open>Signal.of\<close>

lemma dispatch_all_observer:
  "dispatch_all (Observer k) vs s = (s\<lparr>trace := trace s @ map (Val k) vs\<rparr>, False)"
  by (induction vs arbitrary: s) simp_all

lemma of_state:
  "subscribe (Of vs) (Observer k) (ObserverC k') s =
     (fresh s, s\<lparr>fresh := Suc (fresh s),
        promises := (promises s)(fresh s := Fulfilled (Unsub Noop)),
        trace := trace s @ map (Val k) vs @ [Done k', Resolved (fresh s)]\<rparr>)"
  by (simp add: new_promise_def alloc_def resolve_def dispatch_all_observer Let_def
        del: dispatch_all.simps)

text \<open>
  Claim C6. A subscription to \<open>Of vs\<close> by an observer calls the value callback with
  the payloads of \<open>vs\<close> in order, then the completion callback once, and returns
  (in a promise fulfilled during the call) the Unsubscribe that does nothing. The
  subscription queues no microtask, so nothing follows the completion: from the
  initial state the trace stays the same however long the queue is run.
\<close>

theorem of_subscription:
  "trace (snd (subscribe (Of vs) (Observer k) (ObserverC k') s))
     = trace s @ map (Val k) vs @ [Done k', Resolved (fresh s)]
   \<and> queue (snd (subscribe (Of vs) (Observer k) (ObserverC k') s)) = queue s
   \<and> promises (snd (subscribe (Of vs) (Observer k) (ObserverC k') s))
        (fst (subscribe (Of vs) (Observer k) (ObserverC k') s)) = Fulfilled (Unsub Noop)
   \<and> invoke_unsubscribe Noop t = t
   \<and> trace (run n (snd (subscribe (Of vs) (Observer k) (ObserverC k') init)))
        = map (Val k) vs @ [Done k', Resolved 0]"
  by (simp add: of_state run_idle init_def del: subscribe.simps)

section \<open>map and filter\<close>

lemma observed_map_val: "observed k (map (\<lambda>x. Val k (f x)) xs) = map f xs"
  by (induction xs) simp_all

lemma dispatch_all_map_filter:
  "dispatch_all (MapFn j fn (FilterFn i pr (Observer k))) vs s
     = (s\<lparr>trace := trace s @ map (Val k) (filter pr (map fn vs))\<rparr>, False)"
  by (induction vs arbitrary: s) simp_all

lemma dispatch_all_filter:
  "dispatch_all (FilterFn i pr (Observer k)) vs s
     = (s\<lparr>trace := trace s @ map (Val k) (filter pr vs)\<rparr>, False)"
  by (induction vs arbitrary: s) simp_all

lemma map_filter_of_state:
  "subscribe (Filter pr (Map fn (Of vs))) (Observer k) (ObserverC k') s =
     (fresh s + 2, s\<lparr>fresh := fresh s + 3,
        promises := (promises s)(fresh s + 2 := Fulfilled (Unsub Noop)),
        trace := trace s @ map (Val k) (filter pr (map fn vs)) @ [Done k', Resolved (fresh s + 2)]\<rparr>)"
  by (simp add: new_promise_def alloc_def resolve_def dispatch_all_map_filter Let_def
        del: dispatch_all.simps invoke_dispatch.simps)

lemma filter_of_state:
  "subscribe (Filter pr (Of vs)) (Observer k) (ObserverC k') s =
     (fresh s + 1, s\<lparr>fresh := fresh s + 2,
        promises := (promises s)(fresh s + 1 := Fulfilled (Unsub Noop)),
        trace := trace s @ map (Val k) (filter pr vs) @ [Done k', Resolved (fresh s + 1)]\<rparr>)"
  by (simp add: new_promise_def alloc_def resolve_def dispatch_all_filter Let_def
        del: dispatch_all.simps invoke_dispatch.simps)

text \<open>
  Claim C7, as amended. The callback that \<^verbatim>\<open>source.map(fn).filter(pr)\<close> hands to its
  source acts on every payload as the callback of
  \<^verbatim>\<open>source.filter(x => pr(fn(x))).map(fn)\<close> does: a payload \<open>x\<close> goes through exactly
  when the composed predicate holds of it, and it arrives as \<open>fn x\<close>. Over the source
  \<open>Of vs\<close> the observer receives the images under \<open>fn\<close> of the payloads that pass the
  composed predicate, in order; for \<open>[1, 2, 3, 4]\<close>, doubling and \<open>4 < x\<close> it receives
  \<open>[6, 8]\<close>.
\<close>

theorem map_then_filter:
  "invoke_dispatch (MapFn i fn (FilterFn j pr d)) x s
     = invoke_dispatch (FilterFn j' (\<lambda>x. pr (fn x)) (MapFn i' fn d)) x s
   \<and> observed k (trace (snd (subscribe (Filter pr (Map fn (Of vs))) (Observer k) (ObserverC k') s)))
     = observed k (trace s) @ map fn (filter (\<lambda>x. pr (fn x)) vs)
   \<and> observed k (trace (snd (subscribe (Filter (\<lambda>x. 4 < x) (Map (\<lambda>x. x * 2) (Of [1, 2, 3, 4 :: int])))
          (Observer k) (ObserverC k') init))) = [6, 8]"
  by (simp add: map_filter_of_state observed_append observed_vals filter_map init_def
        observed_map_val comp_def del: subscribe.simps)

text \<open>
  Claim C7 as stated fails: filtering the source \<open>[1, 2, 3, 4]\<close> by the composed
  predicate \<open>4 < x * 2\<close> delivers \<open>[3, 4]\<close>, the payloads of the source, while
  \<^verbatim>\<open>map(x => x * 2).filter(x => x > 4)\<close> delivers \<open>[6, 8]\<close>.
\<close>

theorem map_then_filter_counterexample:
  "observed 1 (trace (snd (subscribe (Filter (\<lambda>x. 4 < x * 2) (Of [1, 2, 3, 4 :: int]))
        (Observer 1) (ObserverC 1) init))) = [3, 4]
   \<and> observed 1 (trace (snd (subscribe (Filter (\<lambda>x. 4 < x) (Map (\<lambda>x. x * 2) (Of [1, 2, 3, 4 :: int])))
        (Observer 1) (ObserverC 1) init))) = [6, 8]
   \<and> observed 1 (trace (snd (subscribe (Filter (\<lambda>x. 4 < x) (Map (\<lambda>x. x * 2) (Of [1, 2, 3, 4 :: int])))
        (Observer 1) (ObserverC 1) init)))
     \<noteq> observed 1 (trace (snd (subscribe (Filter (\<lambda>x. 4 < x * 2) (Of [1, 2, 3, 4 :: int]))
        (Observer 1) (ObserverC 1) init)))"
  by (simp add: map_filter_of_state filter_of_state observed_append observed_vals init_def
        del: subscribe.simps)

section \<open>Subject: membership by function identity\<close>

lemma members_append: "members (es @ fs) = members es @ members fs"
  by (induction es rule: members.induct) simp_all

lemma set_add_idem: "set_add ident x (set_add ident x es) = set_add ident x es"
  by (simp add: set_add_def members_append)

lemma count_absent:
  "ident x \<notin> ident ` set xs \<Longrightarrow> filter (\<lambda>y. ident y = ident x) xs = []"
  by (induction xs) auto

lemma count_distinct:
  "distinct (map ident xs) \<Longrightarrow> ident x \<in> ident ` set xs \<Longrightarrow>
   length (filter (\<lambda>y. ident y = ident x) xs) = 1"
proof (induction xs)
  case Nil
  then show ?case by simp
next
  case (Cons a xs)
  show ?case
  proof (cases "ident a = ident x")
    case True
    from Cons.prems(1) have "ident a \<notin> ident ` set xs" by simp
    then have "ident x \<notin> ident ` set xs" unfolding True .
    from count_absent[OF this] True show ?thesis by simp
  next
    case False
    with Cons show ?thesis by auto
  qed
qed

lemma set_add_count:
  "distinct (map ident (members es)) \<Longrightarrow>
   length (filter (\<lambda>y. ident y = ident x) (members (set_add ident x es))) = 1"
proof (cases "ident x \<in> ident ` set (members es)")
  case True
  assume "distinct (map ident (members es))"
  from count_distinct[OF this True] True show ?thesis by (simp add: set_add_def)
next
  case False
  from count_absent[OF False] False show ?thesis by (simp add: set_add_def members_append)
qed

lemma members_emptied:
  "members (map (emptied ident x) es) = filter (\<lambda>y. ident y \<noteq> ident x) (members es)"
  by (induction es rule: members.induct) simp_all

lemma set_delete_absent: "ident x \<notin> set (map ident (members (set_delete ident x es)))"
  by (auto simp: set_delete_def members_emptied)

text \<open>
  Claim C10. When the same value callback \<open>d\<close> and the same completion callback \<open>c\<close>
  are subscribed to Subject \<open>h\<close> a second time, the two sets stay as the first
  subscription left them, so each holds the callback once and a fan-out calls it
  once. Both subscriptions return the same Unsubscribe action, and calling it leaves
  neither callback in its set: the one call ends both subscriptions.
\<close>

theorem subscribe_twice:
  assumes "distinct (map dispatch_ident (members (dispatchs s h)))"
    and "distinct (map complete_ident (members (completes s h)))"
    and "s1 = snd (subject_subscribe h d c s)"
    and "s2 = snd (subject_subscribe h d c s1)"
    and "s3 = invoke_unsubscribe (HubUnsub h d c) s2"
  shows "dispatchs s2 = dispatchs s1 \<and> completes s2 = completes s1
    \<and> length (filter (\<lambda>y. dispatch_ident y = dispatch_ident d) (members (dispatchs s2 h))) = 1
    \<and> length (filter (\<lambda>y. complete_ident y = complete_ident c) (members (completes s2 h))) = 1
    \<and> promises s2 (fst (subject_subscribe h d c s)) = Fulfilled (Unsub (HubUnsub h d c))
    \<and> promises s2 (fst (subject_subscribe h d c s1)) = Fulfilled (Unsub (HubUnsub h d c))
    \<and> dispatch_ident d \<notin> set (map dispatch_ident (members (dispatchs s3 h)))
    \<and> complete_ident c \<notin> set (map complete_ident (members (completes s3 h)))"
  using assms set_delete_absent[of dispatch_ident d] set_delete_absent[of complete_ident c]
  by (simp add: subject_subscribe_state set_add_idem set_add_count)

theorem subscribe_twice_witness:
  "distinct (map dispatch_ident (members (dispatchs (one_subject :: int state) 0)))
   \<and> distinct (map complete_ident (members (completes (one_subject :: int state) 0)))
   \<and> members (dispatchs (snd (subject_subscribe 0 (Observer 1) (ObserverC 1)
        (snd (subject_subscribe 0 (Observer 1) (ObserverC 1) (one_subject :: int state))))) 0)
      = [Observer 1]
   \<and> members (dispatchs (invoke_unsubscribe (HubUnsub 0 (Observer 1) (ObserverC 1))
        (snd (subject_subscribe 0 (Observer 1) (ObserverC 1)
          (snd (subject_subscribe 0 (Observer 1) (ObserverC 1) (one_subject :: int state)))))) 0)
      = []"
proof -
  have a: "distinct (map dispatch_ident (members (dispatchs (one_subject :: int state) 0)))"
    by (simp add: one_subject_def new_subject_def alloc_def init_def)
  have b: "distinct (map complete_ident (members (completes (one_subject :: int state) 0)))"
    by (simp add: one_subject_def new_subject_def alloc_def init_def)
  from subscribe_twice [OF a b refl refl refl, of "Observer 1" "ObserverC 1"]
  show ?thesis
    by (simp add: scenario_defs)
qed

section \<open>Callbacks that leave a Subject alone\<close>

lemma unsub_keeps_sets:
  "unsub_keeps h u \<Longrightarrow>
   dispatchs (invoke_unsubscribe u s) h = dispatchs s h
   \<and> completes (invoke_unsubscribe u s) h = completes s h"
proof (induction u s rule: invoke_unsubscribe.induct)
  case (1 s)
  then show ?case by simp
next
  case (2 g d c s)
  then show ?case by (simp add: Let_def)
next
  case (3 source unsubSink s)
  then show ?case by (simp add: subject_complete_state)
next
  case (4 unsubs s)
  then show ?case
  proof (induction unsubs arbitrary: s)
    case Nil
    then show ?case by simp
  next
    case (Cons u us)
    from Cons.prems(2) have ku: "unsub_keeps h u" and kus: "unsub_keeps h (MergeUnsub us)"
      by simp_all
    have 1: "dispatchs (invoke_unsubscribe u s) h = dispatchs s h
      \<and> completes (invoke_unsubscribe u s) h = completes s h"
      by (rule Cons.prems(1)) (simp_all add: ku)
    have 2: "dispatchs (invoke_unsubscribe (MergeUnsub us) (invoke_unsubscribe u s)) h
        = dispatchs (invoke_unsubscribe u s) h
      \<and> completes (invoke_unsubscribe (MergeUnsub us) (invoke_unsubscribe u s)) h
        = completes (invoke_unsubscribe u s) h"
    proof (rule Cons.IH)
      fix x s'
      assume "x \<in> set us" "unsub_keeps h x"
      then show "dispatchs (invoke_unsubscribe x s') h = dispatchs s' h
        \<and> completes (invoke_unsubscribe x s') h = completes s' h"
        using Cons.prems(1)[of x s'] by simp
    next
      show "unsub_keeps h (MergeUnsub us)" by (rule kus)
    qed
    from 1 2 show ?case by simp
  qed
qed

lemma effects_keep:
  "list_all (effect_keeps h) effects \<Longrightarrow>
   snd (run_effects effects s) = False
   \<and> dispatchs (fst (run_effects effects s)) h = dispatchs s h
   \<and> completes (fst (run_effects effects s)) h = completes s h"
proof (induction effects s rule: run_effects.induct)
  case (2 u effects s)
  with unsub_keeps_sets[of h u s] show ?case by simp
qed (simp_all add: subject_subscribe_state subject_dispatch_state subject_complete_state)

lemma invoke_dispatch_keeps:
  "keeps h d \<Longrightarrow>
   snd (invoke_dispatch d v s) = False
   \<and> dispatchs (fst (invoke_dispatch d v s)) h = dispatchs s h
   \<and> completes (fst (invoke_dispatch d v s)) h = completes s h"
proof (induction d v s rule: invoke_dispatch.induct)
  case (1 k effects v s)
  with effects_keep[of h effects "s\<lparr>trace := trace s @ [Val k v]\<rparr>"] show ?case by simp
qed (simp_all add: subject_dispatch_state)

lemma invoke_complete_keeps:
  "keeps_c h c \<Longrightarrow>
   snd (invoke_complete c s) = False
   \<and> dispatchs (fst (invoke_complete c s)) h = dispatchs s h
   \<and> completes (fst (invoke_complete c s)) h = completes s h"
proof (induction c s rule: invoke_complete.induct)
  case (1 k effects s)
  with effects_keep[of h effects "s\<lparr>trace := trace s @ [Done k]\<rparr>"] show ?case by simp
next
  case (2 g s)
  then show ?case by (simp add: subject_complete_state)
next
  case (3 cell i c s)
  let ?s1 = "s\<lparr>counter := (counter s)(cell := counter s cell - 1),
                 trace := trace s @ [Signalled cell i]\<rparr>"
  let ?s2 = "?s1\<lparr>trace := trace ?s1 @ [Merged cell]\<rparr>"
  show ?case
  proof (cases "counter ?s1 cell \<le> 0 \<and> \<not> completed ?s1 cell")
    case True
    from "3.IH"[OF refl True] "3.prems"
    have "snd (invoke_complete c ?s2) = False
      \<and> dispatchs (fst (invoke_complete c ?s2)) h = dispatchs s h
      \<and> completes (fst (invoke_complete c ?s2)) h = completes s h" by simp
    with True show ?thesis
      by (cases "invoke_complete c ?s2") (auto simp: Let_def split: bool.splits)
  next
    case False
    then show ?thesis by (auto simp: Let_def)
  qed
qed

lemma members_drop_step:
  "i < length es \<Longrightarrow> members (drop i es)
     = (case es ! i of None \<Rightarrow> [] | Some x \<Rightarrow> [x]) @ members (drop (Suc i) es)"
  by (subst Cons_nth_drop_Suc[symmetric], assumption) (cases "es ! i", simp_all)

lemma for_each_dispatch_keeps:
  "\<forall>d \<in> set (members (drop i (dispatchs s h))). keeps h d \<Longrightarrow>
   for_each_dispatch h i v s
     = (foldl (\<lambda>s d. fst (invoke_dispatch d v s)) s (members (drop i (dispatchs s h))), False)
   \<and> dispatchs (foldl (\<lambda>s d. fst (invoke_dispatch d v s)) s
         (members (drop i (dispatchs s h)))) h = dispatchs s h
   \<and> completes (foldl (\<lambda>s d. fst (invoke_dispatch d v s)) s
         (members (drop i (dispatchs s h)))) h = completes s h"
proof (induction "length (dispatchs s h) - i" arbitrary: i s)
  case 0
  then have "\<not> i < length (dispatchs s h)" by simp
  then show ?case by (simp add: for_each_dispatch.simps[of h i v s])
next
  case (Suc n)
  then have i: "i < length (dispatchs s h)" by simp
  show ?case
  proof (cases "dispatchs s h ! i")
    case None
    from Suc.prems i None have k: "\<forall>d \<in> set (members (drop (Suc i) (dispatchs s h))). keeps h d"
      by (simp add: members_drop_step)
    from Suc.hyps(2) have n: "n = length (dispatchs s h) - Suc i" by simp
    from Suc.hyps(1)[OF n k] i None show ?thesis
      by (simp add: for_each_dispatch.simps[of h i v s] members_drop_step)
  next
    case (Some d)
    from Suc.prems i Some have kd: "keeps h d"
      and k: "\<forall>d \<in> set (members (drop (Suc i) (dispatchs s h))). keeps h d"
      by (simp_all add: members_drop_step)
    obtain s1 b where e0: "invoke_dispatch d v s = (s1, b)" by (cases "invoke_dispatch d v s")
    with invoke_dispatch_keeps[OF kd, of v s]
    have e: "invoke_dispatch d v s = (s1, False)" and d1: "dispatchs s1 h = dispatchs s h"
      and c1: "completes s1 h = completes s h"
      by simp_all
    from Suc.hyps(2) d1 have n: "n = length (dispatchs s1 h) - Suc i" by simp
    from k d1 have k1: "\<forall>d \<in> set (members (drop (Suc i) (dispatchs s1 h))). keeps h d" by simp
    from Suc.hyps(1)[OF n k1] i Some e d1 c1 show ?thesis
      by (simp add: for_each_dispatch.simps[of h i v s] members_drop_step)
  qed
qed

lemma for_each_complete_keeps:
  "\<forall>c \<in> set (members (drop i (completes s h))). keeps_c h c \<Longrightarrow>
   for_each_complete h i s
     = (foldl (\<lambda>s c. fst (invoke_complete c s)) s (members (drop i (completes s h))), False)
   \<and> dispatchs (foldl (\<lambda>s c. fst (invoke_complete c s)) s
         (members (drop i (completes s h)))) h = dispatchs s h
   \<and> completes (foldl (\<lambda>s c. fst (invoke_complete c s)) s
         (members (drop i (completes s h)))) h = completes s h"
proof (induction "length (completes s h) - i" arbitrary: i s)
  case 0
  then have "\<not> i < length (completes s h)" by simp
  then show ?case by (simp add: for_each_complete.simps[of h i s])
next
  case (Suc n)
  then have i: "i < length (completes s h)" by simp
  show ?case
  proof (cases "completes s h ! i")
    case None
    from Suc.prems i None have k: "\<forall>c \<in> set (members (drop (Suc i) (completes s h))). keeps_c h c"
      by (simp add: members_drop_step)
    from Suc.hyps(2) have n: "n = length (completes s h) - Suc i" by simp
    from Suc.hyps(1)[OF n k] i None show ?thesis
      by (simp add: for_each_complete.simps[of h i s] members_drop_step)
  next
    case (Some c)
    from Suc.prems i Some have kc: "keeps_c h c"
      and k: "\<forall>c \<in> set (members (drop (Suc i) (completes s h))). keeps_c h c"
      by (simp_all add: members_drop_step)
    obtain s1 b where e0: "invoke_complete c s = (s1, b)" by (cases "invoke_complete c s")
    with invoke_complete_keeps[OF kc, of s]
    have e: "invoke_complete c s = (s1, False)" and d1: "dispatchs s1 h = dispatchs s h"
      and c1: "completes s1 h = completes s h"
      by simp_all
    from Suc.hyps(2) c1 have n: "n = length (completes s1 h) - Suc i" by simp
    from k c1 have k1: "\<forall>c \<in> set (members (drop (Suc i) (completes s1 h))). keeps_c h c" by simp
    from Suc.hyps(1)[OF n k1] i Some e d1 c1 show ?thesis
      by (simp add: for_each_complete.simps[of h i s] members_drop_step)
  qed
qed

text \<open>A call of a closure settles no promise that exists already.\<close>

lemma unsubscribe_promises:
  "p < fresh s \<Longrightarrow>
   promises (invoke_unsubscribe u s) p = promises s p \<and> fresh s \<le> fresh (invoke_unsubscribe u s)"
proof (induction u s rule: invoke_unsubscribe.induct)
  case (1 s)
  then show ?case by simp
next
  case (2 g d c s)
  then show ?case by (simp add: Let_def)
next
  case (3 source unsubSink s)
  let ?s1 = "snd (subject_complete source s)"
  from "3.prems" have "p < fresh ?s1" by (simp add: subject_complete_state)
  from "3.IH"[OF this] "3.prems" show ?case by (simp add: subject_complete_state)
next
  case (4 unsubs s)
  then show ?case
  proof (induction unsubs arbitrary: s)
    case Nil
    then show ?case by simp
  next
    case (Cons u us)
    have 1: "promises (invoke_unsubscribe u s) p = promises s p
      \<and> fresh s \<le> fresh (invoke_unsubscribe u s)"
      by (rule Cons.prems(1)) (simp_all add: Cons.prems(2))
    then have p1: "p < fresh (invoke_unsubscribe u s)" using Cons.prems(2) by simp
    have 2: "promises (invoke_unsubscribe (MergeUnsub us) (invoke_unsubscribe u s)) p
        = promises (invoke_unsubscribe u s) p
      \<and> fresh (invoke_unsubscribe u s)
        \<le> fresh (invoke_unsubscribe (MergeUnsub us) (invoke_unsubscribe u s))"
    proof (rule Cons.IH)
      fix x and s' :: "'a state"
      assume "x \<in> set us" "p < fresh s'"
      then show "promises (invoke_unsubscribe x s') p = promises s' p
        \<and> fresh s' \<le> fresh (invoke_unsubscribe x s')"
        using Cons.prems(1)[of x s'] by simp
    next
      show "p < fresh (invoke_unsubscribe u s)" by (rule p1)
    qed
    from 1 2 show ?case by simp
  qed
qed

lemma effects_promises:
  "p < fresh s \<Longrightarrow>
   promises (fst (run_effects effects s)) p = promises s p
   \<and> fresh s \<le> fresh (fst (run_effects effects s))"
proof (induction effects s rule: run_effects.induct)
  case (1 s)
  then show ?case by simp
next
  case (2 u effects s)
  from unsubscribe_promises[OF "2.prems", of u]
  have 1: "promises (invoke_unsubscribe u s) p = promises s p"
    and 2: "p < fresh (invoke_unsubscribe u s)" "fresh s \<le> fresh (invoke_unsubscribe u s)"
    using "2.prems" by simp_all
  from "2.IH"[OF 2(1)] 1 2(2) show ?case by simp
next
  case (3 g d c effects s)
  let ?s1 = "snd (subject_subscribe g d c s)"
  from "3.prems" have "p < fresh ?s1" by (simp add: subject_subscribe_state)
  from "3.IH"[OF this] "3.prems" show ?case by (simp add: subject_subscribe_state)
next
  case (4 g payload effects s)
  let ?s1 = "snd (subject_dispatch g payload s)"
  from "4.prems" have "p < fresh ?s1" by (simp add: subject_dispatch_state)
  from "4.IH"[OF this] "4.prems" show ?case by (simp add: subject_dispatch_state)
next
  case (5 g effects s)
  let ?s1 = "snd (subject_complete g s)"
  from "5.prems" have "p < fresh ?s1" by (simp add: subject_complete_state)
  from "5.IH"[OF this] "5.prems" show ?case by (simp add: subject_complete_state)
next
  case (6 effects s)
  then show ?case by simp
qed

lemma invoke_dispatch_promises:
  "p < fresh s \<Longrightarrow>
   promises (fst (invoke_dispatch d v s)) p = promises s p
   \<and> fresh s \<le> fresh (fst (invoke_dispatch d v s))"
proof (induction d v s rule: invoke_dispatch.induct)
  case (1 k effects v s)
  with effects_promises[of p "s\<lparr>trace := trace s @ [Val k v]\<rparr>" effects] show ?case by simp
qed (simp_all add: subject_dispatch_state)


lemma foldl_dispatch_promises:
  "p < fresh s \<Longrightarrow>
   promises (foldl (\<lambda>s d. fst (invoke_dispatch d v s)) s ds) p = promises s p"
proof (induction ds arbitrary: s)
  case Nil
  then show ?case by simp
next
  case (Cons d ds)
  from invoke_dispatch_promises[OF Cons.prems, of d v]
  have 1: "promises (fst (invoke_dispatch d v s)) p = promises s p"
    and 2: "p < fresh (fst (invoke_dispatch d v s))"
    using Cons.prems by auto
  from Cons.IH[OF 2] 1 show ?case by (simp del: invoke_dispatch.simps)
qed


section \<open>Subject: dispatch and complete\<close>

lemma foldl_observers:
  "foldl (\<lambda>s d. fst (invoke_dispatch d v s)) s (map Observer ks)
     = s\<lparr>trace := trace s @ map (\<lambda>k. Val k v) ks\<rparr>"
  by (induction ks arbitrary: s) simp_all


lemma fan_out_keeps:
  assumes "\<forall>d \<in> set (members (dispatchs s h)). keeps h d"
  shows "run_task (FanOut h v p) s
      = resolve p Void (foldl (\<lambda>s d. fst (invoke_dispatch d v s)) s (members (dispatchs s h)))"
    and "dispatchs (run_task (FanOut h v p) s) h = dispatchs s h"
    and "completes (run_task (FanOut h v p) s) h = completes s h"
  using for_each_dispatch_keeps[of 0 s h v] assms by simp_all

lemma fan_out_complete_keeps:
  assumes "\<forall>c \<in> set (members (completes s h)). keeps_c h c"
  shows "run_task (FanOutC h p) s
      = resolve p Void (foldl (\<lambda>s c. fst (invoke_complete c s)) s (members (completes s h)))"
    and "dispatchs (run_task (FanOutC h p) s) h = dispatchs s h"
    and "completes (run_task (FanOutC h p) s) h = completes s h"
  using for_each_complete_keeps[of 0 s h] assms by simp_all

lemmas walk_defs = for_each_dispatch.simps for_each_complete.simps step_def resolve_def

text \<open>
  Claim C1, as amended. \<^verbatim>\<open>dispatch\<close> calls no callback: it queues one microtask,
  returns a pending promise and changes no Set. The microtask walks the Set of value
  callbacks as it is when the microtask runs. When no member subscribes to or
  unsubscribes from this Subject or throws when called (\<open>keeps\<close>), the walk calls
  every member once with the payload, in insertion order; the promise is still
  pending after the last call, the microtask then fulfils it, and the Sets of the
  Subject are as before. For observers \<open>ks\<close> the trace gains their calls in order and
  then the resolution.
\<close>

theorem dispatch_fan_out:
  assumes "\<forall>d \<in> set (members (dispatchs s h)). keeps h d"
    and "promises s p = Pending rs" and "p < fresh s"
  shows "trace (snd (subject_dispatch h v t)) = trace t
    \<and> queue (snd (subject_dispatch h v t)) = queue t @ [FanOut h v (fst (subject_dispatch h v t))]
    \<and> promises (snd (subject_dispatch h v t)) (fst (subject_dispatch h v t)) = Pending []
    \<and> fst (subject_dispatch h v t) < fresh (snd (subject_dispatch h v t))
    \<and> dispatchs (snd (subject_dispatch h v t)) = dispatchs t
    \<and> run_task (FanOut h v p) s
        = resolve p Void (foldl (\<lambda>s d. fst (invoke_dispatch d v s)) s (members (dispatchs s h)))
    \<and> promises (foldl (\<lambda>s d. fst (invoke_dispatch d v s)) s (members (dispatchs s h))) p
        = Pending rs
    \<and> promises (run_task (FanOut h v p) s) p = Fulfilled Void
    \<and> (members (dispatchs s h) = map Observer ks \<longrightarrow>
        trace (run_task (FanOut h v p) s) = trace s @ map (\<lambda>k. Val k v) ks @ [Resolved p])
    \<and> dispatchs (run_task (FanOut h v p) s) h = dispatchs s h
    \<and> completes (run_task (FanOut h v p) s) h = completes s h"
proof -
  let ?s1 = "foldl (\<lambda>s d. fst (invoke_dispatch d v s)) s (members (dispatchs s h))"
  note r = fan_out_keeps[OF assms(1), of v p]
  have p1: "promises ?s1 p = Pending rs"
    using foldl_dispatch_promises[OF assms(3)] assms(2) by simp
  have f: "promises (run_task (FanOut h v p) s) p = Fulfilled Void"
    unfolding r(1) by (simp add: resolve_pending[OF p1])
  have o: "members (dispatchs s h) = map Observer ks \<longrightarrow>
        trace (run_task (FanOut h v p) s) = trace s @ map (\<lambda>k. Val k v) ks @ [Resolved p]"
  proof
    assume m: "members (dispatchs s h) = map Observer ks"
    from p1 have "promises (s\<lparr>trace := trace s @ map (\<lambda>k. Val k v) ks\<rparr>) p = Pending rs"
      unfolding m foldl_observers by simp
    then show "trace (run_task (FanOut h v p) s) = trace s @ map (\<lambda>k. Val k v) ks @ [Resolved p]"
      unfolding r(1) m foldl_observers by (simp add: resolve_def)
  qed
  show ?thesis
    using r p1 f o by (simp add: subject_dispatch_state del: run_task.simps)
qed

theorem dispatch_fan_out_witness:
  "trace (run_task (FanOut 0 7 3)
      (snd (subject_dispatch 0 7 (snd (subject_subscribe 0 (Observer 3) (ObserverC 3)
        (snd (subject_subscribe 0 (Observer 1) (ObserverC 1) (one_subject :: int state))))))))
    = [Resolved 1, Resolved 2, Val 1 7, Val 3 7, Resolved 3]"
proof -
  let ?s = "snd (subject_dispatch 0 7 (snd (subject_subscribe 0 (Observer 3) (ObserverC 3)
        (snd (subject_subscribe 0 (Observer 1) (ObserverC 1) (one_subject :: int state))))))"
  have m: "members (dispatchs ?s 0) = map Observer [1, 3]"
    by (simp add: scenario_defs)
  have a: "\<forall>d \<in> set (members (dispatchs ?s 0)). keeps 0 d"
    unfolding m by simp
  have b: "promises ?s 3 = Pending []"
    by (simp add: scenario_defs)
  have c: "3 < fresh ?s"
    by (simp add: scenario_defs)
  have f: "trace ?s = [Resolved 1, Resolved 2]"
    by (simp add: scenario_defs)
  have "members (dispatchs ?s 0) = map Observer [1, 3] \<longrightarrow>
      trace (run_task (FanOut 0 7 3) ?s) = trace ?s @ map (\<lambda>k. Val k 7) [1, 3] @ [Resolved 3]"
    using dispatch_fan_out [OF a b c, of 7 ?s "[1, 3]"] by (elim conjE)
  then have "trace (run_task (FanOut 0 7 3) ?s)
      = trace ?s @ map (\<lambda>k. Val k 7) [1, 3] @ [Resolved 3]" using m by (rule mp)
  then show ?thesis unfolding f by simp
qed

text \<open>
  Claim C1 as stated fails: the callbacks called are not those registered when
  \<^verbatim>\<open>dispatch\<close> was called. An observer registered at the call and unsubscribed
  before the microtask runs is not called, although the promise is fulfilled; an
  observer subscribed after the call is called.
\<close>

theorem dispatch_snapshot_counterexample:
  "members (dispatchs (snd (subject_subscribe 0 (Observer 1) (ObserverC 1)
        (one_subject :: int state))) 0) = [Observer 1]
   \<and> observed 1 (trace (step (invoke_unsubscribe (HubUnsub 0 (Observer 1) (ObserverC 1))
        (snd (subject_dispatch 0 7
          (snd (subject_subscribe 0 (Observer 1) (ObserverC 1) (one_subject :: int state)))))))) = []
   \<and> promises (step (invoke_unsubscribe (HubUnsub 0 (Observer 1) (ObserverC 1))
        (snd (subject_dispatch 0 7
          (snd (subject_subscribe 0 (Observer 1) (ObserverC 1) (one_subject :: int state))))))) 2
     = Fulfilled Void
   \<and> members (dispatchs (snd (subject_dispatch 0 7 (one_subject :: int state))) 0) = []
   \<and> observed 2 (trace (step (snd (subject_subscribe 0 (Observer 2) (ObserverC 2)
        (snd (subject_dispatch 0 7 (one_subject :: int state))))))) = [7]"
  by (simp add: scenario_defs walk_defs)

text \<open>
  What the walk does when a member does change the Set or throws: a member deleted
  by an earlier callback of the same walk is skipped, and the promise is fulfilled;
  a member added during the walk is called in the same walk; when a callback throws,
  the members after it are not called and the promise stays pending.
\<close>

lemma fan_out_live:
  "observed 2 (trace (step (snd (subject_dispatch 0 7
      (snd (subject_subscribe 0 (Observer 2) (ObserverC 2)
        (snd (subject_subscribe 0
          (Client 1 [Unsubscribes (HubUnsub 0 (Observer 2) (ObserverC 2))]) (ObserverC 1)
          (one_subject :: int state))))))))) = []
   \<and> promises (step (snd (subject_dispatch 0 7
      (snd (subject_subscribe 0 (Observer 2) (ObserverC 2)
        (snd (subject_subscribe 0
          (Client 1 [Unsubscribes (HubUnsub 0 (Observer 2) (ObserverC 2))]) (ObserverC 1)
          (one_subject :: int state)))))))) 3 = Fulfilled Void
   \<and> observed 5 (trace (step (snd (subject_dispatch 0 7
        (snd (subject_subscribe 0 (Client 1 [Subscribes 0 (Observer 5) (ObserverC 5)])
          (ObserverC 1) (one_subject :: int state))))))) = [7]
   \<and> trace (step (snd (subject_dispatch 0 7
      (snd (subject_subscribe 0 (Observer 2) (ObserverC 2)
        (snd (subject_subscribe 0 (Client 1 [Throws]) (ObserverC 1)
          (one_subject :: int state)))))))) = [Resolved 1, Resolved 2, Val 1 7, Uncaught]
   \<and> promises (step (snd (subject_dispatch 0 7
      (snd (subject_subscribe 0 (Observer 2) (ObserverC 2)
        (snd (subject_subscribe 0 (Client 1 [Throws]) (ObserverC 1)
          (one_subject :: int state)))))))) 3 = Pending []"
  by (simp add: scenario_defs walk_defs)




section \<open>Signal.merge\<close>

lemma merge_empty_state:
  "subscribe (Merge []) d c s =
    (fresh s, s\<lparr>fresh := fresh s + 3,
       promises := (promises s)(fresh s := Pending [], fresh s + 2 := Fulfilled (Unsubs [])),
       counter := (counter s)(fresh s + 1 := 0),
       completed := (completed s)(fresh s + 1 := False),
       remaining := (remaining s)(fresh s + 2 := 0),
       elements := (elements s)(fresh s + 2 := []),
       queue := queue s @ [Reaction (MergeSubscribed (fresh s)) (Unsubs [])],
       trace := trace s @ [Resolved (fresh s + 2)]\<rparr>)"
  by (simp add: new_promise_def alloc_def promise_all_def resolve_def perform_then_def
        enqueue_def Let_def)

text \<open>
  Claim C9. A subscription to \<open>Merge []\<close>, made when no microtask is waiting, never
  calls the value callback nor the completion callback: however many microtasks are
  run, the observer has received no payload and no completion beyond those of the
  trace before the subscription. After one microtask the queue is empty and the
  subscription has returned its Unsubscribe (over no inputs).
\<close>

theorem merge_empty_never_completes:
  assumes "queue s = []"
  shows "observed k (trace (run n (snd (subscribe (Merge []) (Observer k) (ObserverC k') s))))
       = observed k (trace s)
    \<and> completions k' (trace (run n (snd (subscribe (Merge []) (Observer k) (ObserverC k') s))))
       = completions k' (trace s)
    \<and> queue (run (Suc n) (snd (subscribe (Merge []) (Observer k) (ObserverC k') s))) = []
    \<and> promises (run (Suc n) (snd (subscribe (Merge []) (Observer k) (ObserverC k') s)))
         (fst (subscribe (Merge []) (Observer k) (ObserverC k') s))
       = Fulfilled (Unsub (MergeUnsub []))"
proof -
  let ?s1 = "snd (subscribe (Merge []) (Observer k) (ObserverC k') s)"
  have q: "queue (step ?s1) = []"
    using assms by (simp add: merge_empty_state step_def resolve_def del: subscribe.simps)
  have o: "observed k (trace (step ?s1)) = observed k (trace s)"
    "completions k' (trace (step ?s1)) = completions k' (trace s)"
    "observed k (trace ?s1) = observed k (trace s)"
    "completions k' (trace ?s1) = completions k' (trace s)"
    "promises (step ?s1) (fst (subscribe (Merge []) (Observer k) (ObserverC k') s))
       = Fulfilled (Unsub (MergeUnsub []))"
    using assms
    by (simp_all add: merge_empty_state step_def resolve_def observed_append completions_append
          del: subscribe.simps)
  have r: "run (Suc n) ?s1 = step ?s1" for n
    using q by (simp add: run_idle del: subscribe.simps)
  show ?thesis
  proof (cases n)
    case 0
    with o q r[of 0] show ?thesis by (simp del: subscribe.simps)
  next
    case (Suc m)
    with o q r[of m] r[of n] show ?thesis by (simp del: subscribe.simps)
  qed
qed

theorem merge_empty_never_completes_witness:
  "queue (init :: int state) = []
   \<and> completions 1 (trace (run 10 (snd (subscribe (Merge []) (Observer 1) (ObserverC 1)
        (init :: int state))))) = 0
   \<and> observed 1 (trace (run 10 (snd (subscribe (Merge []) (Observer 1) (ObserverC 1)
        (init :: int state))))) = []"
proof -
  have a: "queue (init :: int state) = []" by (simp add: init_def)
  have b: "trace (init :: int state) = []" by (simp add: init_def)
  from merge_empty_never_completes [OF a, of 1 10 1] a b
  show ?thesis by (simp del: subscribe.simps run.simps)
qed

section \<open>Signal.loop\<close>

lemma loop_state:
  "subscribe (Loop handler) d c s =
    (fresh s, s\<lparr>fresh := fresh s + 3,
       dispatchs := (dispatchs s)(fresh s + 1 := [Some d]),
       completes := (completes s)(fresh s + 1 := [Some c]),
       promises := (promises s)(fresh s := Pending [],
          fresh s + 2 := Fulfilled (Unsub (HubUnsub (fresh s + 1) d c))),
       queue := queue s @ [Reaction (LoopSubscribed (fresh s + 1) handler (fresh s))
          (Unsub (HubUnsub (fresh s + 1) d c))],
       trace := trace s @ [Resolved (fresh s + 2)]\<rparr>)"
  by (simp add: new_promise_def new_subject_def alloc_def subject_subscribe_state
        perform_then_def enqueue_def set_add_def Let_def)

text \<open>An Unsubscribe only adds to the end of the microtask queue.\<close>

lemma unsubscribe_queue:
  "\<exists>ts. queue (invoke_unsubscribe u s) = queue s @ ts"
proof (induction u s rule: invoke_unsubscribe.induct)
  case (1 s)
  then show ?case by simp
next
  case (2 h d c s)
  then show ?case by (simp add: Let_def)
next
  case (3 source unsubSink s)
  then obtain ts where "queue (invoke_unsubscribe unsubSink (snd (subject_complete source s)))
      = queue (snd (subject_complete source s)) @ ts" by blast
  then show ?case by (simp add: subject_complete_state)
next
  case (4 unsubs s)
  then show ?case
  proof (induction unsubs arbitrary: s)
    case Nil
    then show ?case by simp
  next
    case (Cons u us)
    from Cons.prems[of u s] obtain ts1 where 1: "queue (invoke_unsubscribe u s) = queue s @ ts1"
      by auto
    have "\<exists>ts. queue (invoke_unsubscribe (MergeUnsub us) (invoke_unsubscribe u s))
        = queue (invoke_unsubscribe u s) @ ts"
      by (rule Cons.IH) (rule Cons.prems, simp)
    then obtain ts2 where "queue (invoke_unsubscribe (MergeUnsub us) (invoke_unsubscribe u s))
        = queue (invoke_unsubscribe u s) @ ts2" by blast
    with 1 show ?case by simp
  qed
qed

text \<open>
  Claim C2. The second \<^verbatim>\<open>await\<close> of a loop subscription resolves the promise of the
  subscription with \<open>LoopUnsub source unsubSink\<close>. Calling it is calling \<^verbatim>\<open>complete\<close>
  on the Subject of the loop, which queues the completion fan-out and touches no
  Set, and then calling the Unsubscribe of the sink on the resulting state: in the
  queue the completion fan-out of the Subject comes before anything that the sink's
  Unsubscribe queues.
\<close>

theorem loop_unsubscribe_order:
  assumes "promises s p = Pending rs"
  shows "promises (run_task (Reaction (LoopSinkSubscribed source p) (Unsub unsubSink)) s) p
       = Fulfilled (Unsub (LoopUnsub source unsubSink))
    \<and> invoke_unsubscribe (LoopUnsub source unsubSink) t
       = invoke_unsubscribe unsubSink (snd (subject_complete source t))
    \<and> queue (snd (subject_complete source t)) = queue t @ [FanOutC source (fresh t)]
    \<and> dispatchs (snd (subject_complete source t)) = dispatchs t
    \<and> completes (snd (subject_complete source t)) = completes t
    \<and> (\<exists>ts. queue (invoke_unsubscribe (LoopUnsub source unsubSink) t)
          = queue t @ FanOutC source (fresh t) # ts)"
proof -
  obtain ts where "queue (invoke_unsubscribe unsubSink (snd (subject_complete source t)))
      = queue (snd (subject_complete source t)) @ ts"
    using unsubscribe_queue by blast
  then have "queue (invoke_unsubscribe (LoopUnsub source unsubSink) t)
          = queue t @ FanOutC source (fresh t) # ts"
    by (simp add: subject_complete_state)
  with assms show ?thesis
    by (simp add: resolve_pending subject_complete_state)
qed

lemmas run_defs = step_def new_promise_def perform_then_def enqueue_def resolve_def
  numeral_2_eq_2 identity_loop_def

theorem loop_unsubscribe_order_witness:
  "promises ((step (snd (subscribe (Loop (\<lambda>source. Subject source)) (Observer 1) (ObserverC 1)
        (init :: int state))))\<lparr>queue := []\<rparr>) 0 = Pending []
   \<and> promises (run_task (Reaction (LoopSinkSubscribed 1 0)
          (Unsub (HubUnsub 1 (HubDispatch 1) (HubComplete 1))))
        ((step (snd (subscribe (Loop (\<lambda>source. Subject source)) (Observer 1) (ObserverC 1)
          (init :: int state))))\<lparr>queue := []\<rparr>)) 0
      = Fulfilled (Unsub (LoopUnsub 1 (HubUnsub 1 (HubDispatch 1) (HubComplete 1))))
   \<and> queue (invoke_unsubscribe (LoopUnsub 1 (HubUnsub 1 (HubDispatch 1) (HubComplete 1)))
        (identity_loop 1 :: int state)) = [FanOutC 1 4]
   \<and> members (completes (invoke_unsubscribe (LoopUnsub 1 (HubUnsub 1 (HubDispatch 1) (HubComplete 1)))
        (identity_loop 1 :: int state)) 1) = [ObserverC 1]"
proof -
  let ?s = "(step (snd (subscribe (Loop (\<lambda>source. Subject source)) (Observer 1) (ObserverC 1)
        (init :: int state))))\<lparr>queue := []\<rparr>"
  have a: "promises ?s 0 = Pending []"
    by (simp add: scenario_defs run_defs)
  from loop_unsubscribe_order [OF a, of 1 "HubUnsub 1 (HubDispatch 1) (HubComplete 1)"
      "identity_loop 1"] a
  show ?thesis
    by (simp add: scenario_defs run_defs)
qed

section \<open>Signal.loop with the identity handler\<close>

lemma cycling_step:
  assumes "cycling h k (v # vs) s"
  shows "cycling h k (vs @ [v]) (step s)"
    and "observed k (trace (step s)) = observed k (trace s) @ [v]"
proof -
  from assms obtain ps where ps: "length ps = length (v # vs)"
    "queue s = map (\<lambda>(v, p). FanOut h v p) (zip (v # vs) ps)" "distinct ps"
    "\<forall>p \<in> set ps. promises s p = Pending [] \<and> p < fresh s"
    and d: "dispatchs s h = [Some (Observer k), Some (HubDispatch h)]"
    unfolding cycling_def by blast
  from ps(1) obtain p qs where pq: "ps = p # qs" by (cases ps) auto
  with ps have q: "queue s = FanOut h v p # map (\<lambda>(v, p). FanOut h v p) (zip vs qs)"
    and len: "length qs = length vs" and pn: "p \<notin> set qs" and dq: "distinct qs"
    and pp: "promises s p = Pending []" and pf: "p < fresh s"
    and qp: "\<forall>p \<in> set qs. promises s p = Pending [] \<and> p < fresh s"
    by auto
  let ?rest = "map (\<lambda>(v, p). FanOut h v p) (zip vs qs)"
  let ?s0 = "s\<lparr>queue := ?rest\<rparr>"
  have k: "\<forall>d \<in> set (members (dispatchs ?s0 h)). keeps h d"
    using d by simp
  have st: "step s = s\<lparr>fresh := Suc (fresh s),
      promises := (promises s)(fresh s := Pending [], p := Fulfilled Void),
      queue := ?rest @ [FanOut h v (fresh s)],
      trace := trace s @ [Val k v, Resolved p]\<rparr>"
    using q d pp pf fan_out_keeps(1)[OF k, of v p]
    by (simp add: step_def subject_dispatch_state resolve_def del: run_task.simps)
  have "queue (step s) = map (\<lambda>(v, p). FanOut h v p) (zip (vs @ [v]) (qs @ [fresh s]))"
    using len by (simp add: st)
  moreover have "distinct (qs @ [fresh s])" using dq qp by auto
  moreover have "\<forall>q \<in> set (qs @ [fresh s]). promises (step s) q = Pending [] \<and> q < fresh (step s)"
    using qp pn pf by (auto simp: st)
  moreover have "length (qs @ [fresh s]) = length (vs @ [v])" using len by simp
  moreover have "dispatchs (step s) h = [Some (Observer k), Some (HubDispatch h)]"
    using d by (simp add: st)
  ultimately show "cycling h k (vs @ [v]) (step s)"
    unfolding cycling_def by blast
  show "observed k (trace (step s)) = observed k (trace s) @ [v]"
    by (simp add: st observed_append)
qed

lemma cycling_run:
  "cycling h k (us @ ws) s \<Longrightarrow>
   cycling h k (ws @ us) (run (length us) s)
   \<and> observed k (trace (run (length us) s)) = observed k (trace s) @ us"
proof (induction us arbitrary: s ws)
  case Nil
  then show ?case by simp
next
  case (Cons u us)
  from Cons.prems have c: "cycling h k (u # (us @ ws)) s" by simp
  have 1: "cycling h k (us @ (ws @ [u])) (step s)"
    using cycling_step(1)[OF c] by simp
  have 2: "observed k (trace (step s)) = observed k (trace s) @ [u]"
    by (rule cycling_step(2)[OF c])
  from Cons.IH[OF 1] 2 show ?case by simp
qed

lemma cycling_rounds:
  "cycling h k vs s \<Longrightarrow>
   cycling h k vs (run (n * length vs) s)
   \<and> observed k (trace (run (n * length vs) s)) = observed k (trace s) @ concat (replicate n vs)"
proof (induction n arbitrary: s)
  case 0
  then show ?case by simp
next
  case (Suc n)
  from cycling_run[of h k vs "[]" s] Suc.prems
  have 1: "cycling h k vs (run (length vs) s)"
    and 2: "observed k (trace (run (length vs) s)) = observed k (trace s) @ vs" by simp_all
  from Suc.IH[OF 1] 2 show ?case by (simp add: run_add)
qed

lemma cycling_pending: "cycling h k vs s \<Longrightarrow> pending h (queue s) = vs"
proof -
  have "length ps = length vs \<Longrightarrow> pending h (map (\<lambda>(v, p). FanOut h v p) (zip vs ps)) = vs" for ps
    by (induction vs ps rule: list_induct2') simp_all
  then show "cycling h k vs s \<Longrightarrow> pending h (queue s) = vs"
    unfolding cycling_def by auto
qed

lemma identity_loop_state:
  "dispatchs (identity_loop k) 1 = [Some (Observer k), Some (HubDispatch 1)]"
  "queue (identity_loop k) = []"
  "observed k (trace (identity_loop k)) = []"
  by (simp_all add: identity_loop_def init_def numeral_2_eq_2 step_def
        new_promise_def new_subject_def alloc_def
        subject_subscribe_state set_add_def perform_then_def enqueue_def resolve_def)

lemma inject_cycling:
  "cycling h k us s \<Longrightarrow> cycling h k (us @ vs) (inject h vs s) \<and> trace (inject h vs s) = trace s"
proof (induction vs arbitrary: us s)
  case Nil
  then show ?case by (simp add: inject_def)
next
  case (Cons v vs)
  from Cons.prems obtain ps where ps: "length ps = length us"
    "queue s = map (\<lambda>(v, p). FanOut h v p) (zip us ps)" "distinct ps"
    "\<forall>p \<in> set ps. promises s p = Pending [] \<and> p < fresh s"
    and d: "dispatchs s h = [Some (Observer k), Some (HubDispatch h)]"
    unfolding cycling_def by blast
  let ?s1 = "snd (subject_dispatch h v s)"
  have "queue ?s1 = map (\<lambda>(v, p). FanOut h v p) (zip (us @ [v]) (ps @ [fresh s]))"
    using ps(1,2) by (simp add: subject_dispatch_state)
  moreover have "distinct (ps @ [fresh s])" using ps(3,4) by auto
  moreover have "\<forall>q \<in> set (ps @ [fresh s]). promises ?s1 q = Pending [] \<and> q < fresh ?s1"
    using ps(4) by (auto simp: subject_dispatch_state)
  moreover have "length (ps @ [fresh s]) = length (us @ [v])" using ps(1) by simp
  moreover have "dispatchs ?s1 h = [Some (Observer k), Some (HubDispatch h)]"
    using d by (simp add: subject_dispatch_state)
  ultimately have c: "cycling h k (us @ [v]) ?s1"
    unfolding cycling_def by blast
  have t: "trace ?s1 = trace s" by (simp add: subject_dispatch_state)
  from Cons.IH[OF c] t show ?case by (simp add: inject_def)
qed

text \<open>
  Claim C4. Observer \<open>k\<close> is subscribed to \<^verbatim>\<open>loop((source) => source)\<close>, and the
  payloads \<open>vs\<close> are injected into the Subject of the loop. One round trip is one
  microtask per payload in circulation. After \<open>n\<close> round trips the observer has
  received the payloads \<open>n\<close> times over, each round in the order of injection, and
  the queue holds each payload once again: a round trip neither drops nor
  duplicates a payload.
\<close>

theorem identity_loop_round_trips:
  "observed k (trace (run (n * length vs) (inject 1 vs (identity_loop k))))
     = concat (replicate n vs)
   \<and> pending 1 (queue (run (n * length vs) (inject 1 vs (identity_loop k)))) = vs"
proof -
  have "cycling 1 k [] (identity_loop k :: 'a state)"
    unfolding cycling_def using identity_loop_state[of k] by simp
  from inject_cycling[OF this, of vs]
  have c: "cycling 1 k vs (inject 1 vs (identity_loop k))"
    and t: "trace (inject 1 vs (identity_loop k)) = trace (identity_loop k :: 'a state)"
    by simp_all
  from cycling_rounds[OF c, of n] t cycling_pending[of 1 k vs] identity_loop_state(3)[of k]
  show ?thesis by simp
qed

section \<open>Signal.loop: the sink feeds the Subject\<close>

lemma dispatch_all_hub: "dispatch_all (HubDispatch h) vs s = (inject h vs s, False)"
  by (induction vs arbitrary: s) (simp_all add: inject_def)

lemma inject_state:
  "\<exists>ps. length ps = length vs
     \<and> queue (inject h vs s) = queue s @ map (\<lambda>(v, p). FanOut h v p) (zip vs ps)
     \<and> distinct ps
     \<and> (\<forall>p \<in> set ps. promises (inject h vs s) p = Pending [] \<and> fresh s \<le> p
           \<and> p < fresh (inject h vs s))
     \<and> (\<forall>x. x < fresh s \<longrightarrow> promises (inject h vs s) x = promises s x)
     \<and> fresh s \<le> fresh (inject h vs s)
     \<and> trace (inject h vs s) = trace s
     \<and> dispatchs (inject h vs s) = dispatchs s
     \<and> completes (inject h vs s) = completes s"
proof (induction vs arbitrary: s)
  case Nil
  then show ?case by (simp add: inject_def)
next
  case (Cons v vs)
  let ?s1 = "snd (subject_dispatch h v s)"
  have i: "inject h (v # vs) s = inject h vs ?s1" by (simp add: inject_def)
  from Cons.IH[of ?s1] obtain ps where ps: "length ps = length vs"
    "queue (inject h vs ?s1) = queue ?s1 @ map (\<lambda>(v, p). FanOut h v p) (zip vs ps)"
    "distinct ps"
    "\<forall>p \<in> set ps. promises (inject h vs ?s1) p = Pending [] \<and> fresh ?s1 \<le> p
           \<and> p < fresh (inject h vs ?s1)"
    "\<forall>x. x < fresh ?s1 \<longrightarrow> promises (inject h vs ?s1) x = promises ?s1 x"
    "fresh ?s1 \<le> fresh (inject h vs ?s1)"
    "trace (inject h vs ?s1) = trace ?s1"
    "dispatchs (inject h vs ?s1) = dispatchs ?s1"
    "completes (inject h vs ?s1) = completes ?s1"
    by blast
  have f1: "fresh ?s1 = Suc (fresh s)" by (simp add: subject_dispatch_state)
  have "length (fresh s # ps) = length (v # vs)" using ps(1) by simp
  moreover have "queue (inject h (v # vs) s)
      = queue s @ map (\<lambda>(v, p). FanOut h v p) (zip (v # vs) (fresh s # ps))"
    unfolding i ps(2) by (simp add: subject_dispatch_state)
  moreover have "distinct (fresh s # ps)" using ps(3,4) f1 by auto
  moreover have "\<forall>p \<in> set (fresh s # ps). promises (inject h (v # vs) s) p = Pending []
      \<and> fresh s \<le> p \<and> p < fresh (inject h (v # vs) s)"
  proof
    fix p assume "p \<in> set (fresh s # ps)"
    then consider "p = fresh s" | "p \<in> set ps" by auto
    then show "promises (inject h (v # vs) s) p = Pending []
      \<and> fresh s \<le> p \<and> p < fresh (inject h (v # vs) s)"
    proof cases
      case 1
      then have "promises (inject h vs ?s1) p = promises ?s1 p" using ps(5) f1 by simp
      then show ?thesis using 1 ps(6) f1 unfolding i by (simp add: subject_dispatch_state)
    next
      case 2
      then show ?thesis using ps(4) f1 unfolding i by auto
    qed
  qed
  moreover have "\<forall>x. x < fresh s \<longrightarrow> promises (inject h (v # vs) s) x = promises s x"
    using ps(5) f1 unfolding i by (simp add: subject_dispatch_state)
  moreover have "fresh s \<le> fresh (inject h (v # vs) s)" using ps(6) f1 unfolding i by simp
  moreover have "trace (inject h (v # vs) s) = trace s"
    unfolding i ps(7) by (simp add: subject_dispatch_state)
  moreover have "dispatchs (inject h (v # vs) s) = dispatchs s"
    unfolding i ps(8) by (simp add: subject_dispatch_state)
  moreover have "completes (inject h (v # vs) s) = completes s"
    unfolding i ps(9) by (simp add: subject_dispatch_state)
  ultimately show ?case by blast
qed

lemma drain:
  assumes "dispatchs s h = [Some (Observer k)]"
    and "queue s = map (\<lambda>(v, p). FanOut h v p) (zip vs ps) @ rest"
    and "length ps = length vs" and "distinct ps"
    and "\<forall>p \<in> set ps. promises s p = Pending [] \<and> p < fresh s"
  shows "queue (run (length vs) s) = rest
    \<and> observed k (trace (run (length vs) s)) = observed k (trace s) @ vs
    \<and> completions j (trace (run (length vs) s)) = completions j (trace s)
    \<and> dispatchs (run (length vs) s) = dispatchs s
    \<and> completes (run (length vs) s) = completes s
    \<and> fresh (run (length vs) s) = fresh s
    \<and> (\<forall>x. x \<notin> set ps \<longrightarrow> promises (run (length vs) s) x = promises s x)"
  using assms
proof (induction vs arbitrary: ps s)
  case Nil
  then show ?case by simp
next
  case (Cons v vs)
  from Cons.prems(3) obtain p qs where pq: "ps = p # qs" by (cases ps) auto
  with Cons.prems have q: "queue s = FanOut h v p # map (\<lambda>(v, p). FanOut h v p) (zip vs qs) @ rest"
    and len: "length qs = length vs" and pn: "p \<notin> set qs" and dq: "distinct qs"
    and pp: "promises s p = Pending []" and pf: "p < fresh s"
    and qp: "\<forall>p \<in> set qs. promises s p = Pending [] \<and> p < fresh s"
    by auto
  let ?rest = "map (\<lambda>(v, p). FanOut h v p) (zip vs qs) @ rest"
  let ?s0 = "s\<lparr>queue := ?rest\<rparr>"
  have k: "\<forall>d \<in> set (members (dispatchs ?s0 h)). keeps h d"
    using Cons.prems(1) by simp
  have st: "step s = s\<lparr>promises := (promises s)(p := Fulfilled Void),
      queue := ?rest, trace := trace s @ [Val k v, Resolved p]\<rparr>"
    using q Cons.prems(1) pp pf fan_out_keeps(1)[OF k, of v p]
    by (simp add: step_def resolve_def del: run_task.simps)
  have 1: "dispatchs (step s) h = [Some (Observer k)]" using Cons.prems(1) by (simp add: st)
  have 2: "queue (step s) = ?rest" by (simp add: st)
  have 3: "\<forall>p \<in> set qs. promises (step s) p = Pending [] \<and> p < fresh (step s)"
    using qp pn by (auto simp: st)
  from Cons.IH[OF 1 2 len dq 3] show ?case
    unfolding pq by (simp add: st observed_append completions_append)
qed

lemma of_hub_state:
  "subscribe (Of vs) (HubDispatch h) (HubComplete h) s =
     (fresh s, resolve (fresh s) (Unsub Noop)
        (snd (subject_complete h (inject h vs
          (s\<lparr>fresh := Suc (fresh s), promises := (promises s)(fresh s := Pending [])\<rparr>)))))"
  by (simp add: new_promise_def alloc_def dispatch_all_hub del: dispatch_all.simps)

lemma loop_reaction_of:
  fixes t :: "'a state"
  assumes "t2 = inject source vs
      (t\<lparr>fresh := Suc (fresh t), promises := (promises t)(fresh t := Pending [])\<rparr>)"
    and "r = run_task (Reaction (LoopSubscribed source (\<lambda>source. Of vs) p) v) t"
  shows "queue r = queue t2
            @ [FanOutC source (fresh t2), Reaction (LoopSinkSubscribed source p) (Unsub Noop)]"
    and "trace r = trace t2 @ [Resolved (fresh t)]"
    and "dispatchs r = dispatchs t2" and "completes r = completes t2"
    and "fresh r = Suc (fresh t2)"
    and "promises r = (promises t2)(fresh t2 := Pending [], fresh t := Fulfilled (Unsub Noop))"
proof -
  let ?t1 = "t\<lparr>fresh := Suc (fresh t), promises := (promises t)(fresh t := Pending [])\<rparr>"
  from inject_state[of vs source ?t1]
  have f: "fresh ?t1 \<le> fresh t2" and pr: "promises t2 (fresh t) = promises ?t1 (fresh t)"
    unfolding assms(1) by auto
  from f have ne: "fresh t2 \<noteq> fresh t" "fresh t \<noteq> fresh t2" by simp_all
  from pr have pp: "promises t2 (fresh t) = Pending []" by simp
  let ?t3 = "snd (subject_complete source t2)"
  have p3: "promises ?t3 (fresh t) = Pending []"
    using pp ne by (simp add: subject_complete_state)
  have e: "r = perform_then (fresh t) (LoopSinkSubscribed source p)
      (resolve (fresh t) (Unsub Noop) ?t3)"
    unfolding assms(2) by (simp add: of_hub_state assms(1) del: subscribe.simps)
  have r3: "resolve (fresh t) (Unsub Noop) ?t3
      = ?t3\<lparr>promises := (promises ?t3)(fresh t := Fulfilled (Unsub Noop)),
            trace := trace ?t3 @ [Resolved (fresh t)]\<rparr>"
    using p3 by (simp add: resolve_def)
  show "queue r = queue t2
            @ [FanOutC source (fresh t2), Reaction (LoopSinkSubscribed source p) (Unsub Noop)]"
    unfolding e r3 by (simp add: perform_then_def enqueue_def subject_complete_state)
  show "trace r = trace t2 @ [Resolved (fresh t)]"
    unfolding e r3 by (simp add: perform_then_def enqueue_def subject_complete_state)
  show "dispatchs r = dispatchs t2"
    unfolding e r3 by (simp add: perform_then_def enqueue_def subject_complete_state)
  show "completes r = completes t2"
    unfolding e r3 by (simp add: perform_then_def enqueue_def subject_complete_state)
  show "fresh r = Suc (fresh t2)"
    unfolding e r3 by (simp add: perform_then_def enqueue_def subject_complete_state)
  show "promises r = (promises t2)(fresh t2 := Pending [], fresh t := Fulfilled (Unsub Noop))"
    unfolding e r3 by (simp add: perform_then_def enqueue_def subject_complete_state)
qed

lemma step_cons: "queue s = t # ts \<Longrightarrow> step s = run_task t (s\<lparr>queue := ts\<rparr>)"
  by (simp add: step_def)

lemma loop_of_first:
  fixes vs :: "'a list" and k :: nat and s0 :: "'a state"
  assumes "s0 = snd (subscribe (Loop (\<lambda>source. Of vs)) (Observer k) (ObserverC k) init)"
  shows "\<exists>ps pc. length ps = length vs
     \<and> queue (step s0) = map (\<lambda>(v, p). FanOut 1 v p) (zip vs ps)
          @ [FanOutC 1 pc, Reaction (LoopSinkSubscribed 1 0) (Unsub Noop)]
     \<and> distinct ps \<and> pc \<notin> set ps \<and> 0 \<notin> set ps \<and> pc \<noteq> 0
     \<and> (\<forall>p \<in> set ps. promises (step s0) p = Pending [] \<and> p < fresh (step s0))
     \<and> promises (step s0) pc = Pending [] \<and> pc < fresh (step s0)
     \<and> promises (step s0) 0 = Pending []
     \<and> dispatchs (step s0) 1 = [Some (Observer k)]
     \<and> completes (step s0) 1 = [Some (ObserverC k)]
     \<and> observed k (trace (step s0)) = [] \<and> completions k (trace (step s0)) = 0"
proof -
  define t where "t = s0\<lparr>queue := []\<rparr>"
  define t1 where "t1 = t\<lparr>fresh := Suc (fresh t), promises := (promises t)(fresh t := Pending [])\<rparr>"
  define t2 where "t2 = inject 1 vs t1"
  define r where "r = step s0"
  have t: "fresh t = 3" "promises t 0 = Pending []" "dispatchs t 1 = [Some (Observer k)]"
    "completes t 1 = [Some (ObserverC k)]" "trace t = [Resolved 2]" "queue t = []"
    unfolding t_def assms by (simp_all add: loop_state init_def del: subscribe.simps)
  have q0: "queue s0 = [Reaction (LoopSubscribed 1 (\<lambda>source. Of vs) 0)
      (Unsub (HubUnsub 1 (Observer k) (ObserverC k)))]"
    unfolding assms by (simp add: loop_state init_def del: subscribe.simps)
  have r: "r = run_task (Reaction (LoopSubscribed 1 (\<lambda>source. Of vs) 0)
      (Unsub (HubUnsub 1 (Observer k) (ObserverC k)))) t"
    unfolding r_def t_def by (rule step_cons[OF q0])
  have t2: "t2 = inject 1 vs
      (t\<lparr>fresh := Suc (fresh t), promises := (promises t)(fresh t := Pending [])\<rparr>)"
    unfolding t2_def t1_def ..
  note l = loop_reaction_of[OF t2 r]
  have t1: "fresh t1 = 4" "promises t1 0 = Pending []" "dispatchs t1 1 = [Some (Observer k)]"
    "completes t1 1 = [Some (ObserverC k)]" "trace t1 = [Resolved 2]" "queue t1 = []"
    unfolding t1_def using t by simp_all
  from inject_state[of vs 1 t1] obtain ps where ps: "length ps = length vs"
    "queue t2 = queue t1 @ map (\<lambda>(v, p). FanOut 1 v p) (zip vs ps)"
    "distinct ps"
    "\<forall>p \<in> set ps. promises t2 p = Pending [] \<and> fresh t1 \<le> p \<and> p < fresh t2"
    "\<forall>x. x < fresh t1 \<longrightarrow> promises t2 x = promises t1 x"
    "fresh t1 \<le> fresh t2"
    "trace t2 = trace t1"
    "dispatchs t2 = dispatchs t1"
    "completes t2 = completes t1"
    unfolding t2_def by blast
  let ?pc = "fresh t2"
  have fb: "4 \<le> fresh t2" using ps(6) t1(1) by simp
  have p0: "promises t2 0 = Pending []" using ps(5) t1(1,2) by simp
  have "queue r = map (\<lambda>(v, p). FanOut 1 v p) (zip vs ps)
          @ [FanOutC 1 ?pc, Reaction (LoopSinkSubscribed 1 0) (Unsub Noop)]"
    unfolding l(1) ps(2) t1(6) by simp
  moreover have "?pc \<notin> set ps" using ps(4) by auto
  moreover have "0 \<notin> set ps" using ps(4) t1(1) by auto
  moreover have "?pc \<noteq> 0" using fb by simp
  moreover have "\<forall>p \<in> set ps. promises r p = Pending [] \<and> p < fresh r"
    unfolding l(5,6) using ps(4) t1(1) t(1) by auto
  moreover have "promises r ?pc = Pending [] \<and> ?pc < fresh r"
    unfolding l(5,6) using fb t(1) by simp
  moreover have "promises r 0 = Pending []"
    unfolding l(6) using fb p0 t(1) by simp
  moreover have "dispatchs r 1 = [Some (Observer k)]"
    unfolding l(3) ps(8) by (rule t1(3))
  moreover have "completes r 1 = [Some (ObserverC k)]"
    unfolding l(4) ps(9) by (rule t1(4))
  moreover have "observed k (trace r) = [] \<and> completions k (trace r) = 0"
    unfolding l(2) ps(7) t1(5) t(1) by simp
  ultimately show ?thesis using ps(1,3) unfolding r_def by blast
qed

lemma loop_of_run:
  fixes vs :: "'a list" and k :: nat and s0 :: "'a state"
  assumes s0: "s0 = snd (subscribe (Loop (\<lambda>source. Of vs)) (Observer k) (ObserverC k) init)"
  shows "observed k (trace (run (length vs + 3) s0)) = vs
    \<and> completions k (trace (run (length vs + 3) s0)) = 1
    \<and> queue (run (length vs + 3) s0) = []
    \<and> promises (run (length vs + 3) s0) 0 = Fulfilled (Unsub (LoopUnsub 1 Noop))"
proof -
  define a where "a = step s0"
  from loop_of_first[OF s0] obtain ps pc where a: "length ps = length vs"
     "queue a = map (\<lambda>(v, p). FanOut 1 v p) (zip vs ps)
          @ [FanOutC 1 pc, Reaction (LoopSinkSubscribed 1 0) (Unsub Noop)]"
     "distinct ps" "pc \<notin> set ps" "0 \<notin> set ps" "pc \<noteq> 0"
     "\<forall>p \<in> set ps. promises a p = Pending [] \<and> p < fresh a"
     "promises a pc = Pending [] \<and> pc < fresh a"
     "promises a 0 = Pending []"
     "dispatchs a 1 = [Some (Observer k)]"
     "completes a 1 = [Some (ObserverC k)]"
     "observed k (trace a) = [] \<and> completions k (trace a) = 0"
    unfolding a_def by blast
  define b where "b = run (length vs) a"
  from drain[OF a(10) a(2) a(1) a(3) a(7), where j = k]
  have b: "queue b = [FanOutC 1 pc, Reaction (LoopSinkSubscribed 1 0) (Unsub Noop)]"
    "observed k (trace b) = vs" "completions k (trace b) = 0"
    "completes b 1 = [Some (ObserverC k)]" "fresh b = fresh a"
    "promises b pc = Pending []" "promises b 0 = Pending []"
    unfolding b_def using a(4,5,8,9,11,12) by simp_all
  let ?b0 = "b\<lparr>queue := [Reaction (LoopSinkSubscribed 1 0) (Unsub Noop)]\<rparr>"
  have k: "\<forall>c \<in> set (members (completes ?b0 1)). keeps_c 1 c"
    using b(4) by simp
  have c: "step b = b\<lparr>promises := (promises b)(pc := Fulfilled Void),
      queue := [Reaction (LoopSinkSubscribed 1 0) (Unsub Noop)],
      trace := trace b @ [Done k, Resolved pc]\<rparr>"
    unfolding step_cons[OF b(1)] fan_out_complete_keeps(1)[OF k, of pc]
    using b(4,6) by (simp add: resolve_def)
  have d: "step (step b) = b\<lparr>promises := (promises b)(pc := Fulfilled Void,
         0 := Fulfilled (Unsub (LoopUnsub 1 Noop))),
      queue := [],
      trace := trace b @ [Done k, Resolved pc, Resolved 0]\<rparr>"
    unfolding c using b(7) a(6) by (simp add: step_def resolve_def)
  have e1: "length vs + 3 = Suc (length vs) + 2" by simp
  have e: "run (length vs + 3) s0 = step (step b)"
    unfolding e1 run_add b_def a_def by (simp add: numeral_2_eq_2)
  show ?thesis
    unfolding e d using b(2,3) by (simp add: observed_append completions_append)
qed

text \<open>
  Claim C3. The call of \<^verbatim>\<open>subscribe\<close> on \<open>Loop handler\<close> creates a Subject with a
  number not used before, whose Sets hold the caller's \<open>d\<close> and \<open>c\<close> and nothing
  else, and then stops at its first \<^verbatim>\<open>await\<close>: the rest of the function is queued as
  a microtask, the promise of the call is still pending, and apart from that queued
  microtask the state does not depend on the handler, which has not been called.
  When the microtask runs, it calls the handler on the Subject, subscribes the sink
  with the Subject's bound \<^verbatim>\<open>dispatch\<close> and \<^verbatim>\<open>complete\<close>, and awaits that subscription.
  A call of the bound \<^verbatim>\<open>dispatch\<close> is \<^verbatim>\<open>dispatch\<close> of the Subject: it queues the
  fan-out of the payload to the Subject's subscribers; a call of the bound
  \<^verbatim>\<open>complete\<close> queues the completion fan-out. So what the sink emits reaches the
  caller: when the handler returns \<open>Of vs\<close>, the caller's observer has received
  exactly \<open>vs\<close>, in order, and one completion, once the queue has run.
\<close>

theorem loop_subscribe_order:
  "dispatchs (snd (subscribe (Loop handler) d c s)) (fresh s + 1) = [Some d]
   \<and> completes (snd (subscribe (Loop handler) d c s)) (fresh s + 1) = [Some c]
   \<and> queue (snd (subscribe (Loop handler) d c s))
       = queue s @ [Reaction (LoopSubscribed (fresh s + 1) handler (fst (subscribe (Loop handler) d c s)))
                      (Unsub (HubUnsub (fresh s + 1) d c))]
   \<and> promises (snd (subscribe (Loop handler) d c s)) (fst (subscribe (Loop handler) d c s))
       = Pending []
   \<and> (snd (subscribe (Loop handler) d c s))\<lparr>queue := []\<rparr>
       = (snd (subscribe (Loop handler') d c s))\<lparr>queue := []\<rparr>
   \<and> run_task (Reaction (LoopSubscribed source handler p) v) t
       = perform_then (fst (subscribe (handler source) (HubDispatch source) (HubComplete source) t))
           (LoopSinkSubscribed source p)
           (snd (subscribe (handler source) (HubDispatch source) (HubComplete source) t))
   \<and> invoke_dispatch (HubDispatch source) payload t
       = (t\<lparr>fresh := Suc (fresh t), promises := (promises t)(fresh t := Pending []),
             queue := queue t @ [FanOut source payload (fresh t)]\<rparr>, False)
   \<and> invoke_complete (HubComplete source) t
       = (t\<lparr>fresh := Suc (fresh t), promises := (promises t)(fresh t := Pending []),
             queue := queue t @ [FanOutC source (fresh t)]\<rparr>, False)
   \<and> observed k (trace (run (length vs + 3)
        (snd (subscribe (Loop (\<lambda>source. Of vs)) (Observer k) (ObserverC k) (init :: 'a state)))))
       = vs
   \<and> completions k (trace (run (length vs + 3)
        (snd (subscribe (Loop (\<lambda>source. Of vs)) (Observer k) (ObserverC k) (init :: 'a state)))))
       = 1"
  using loop_of_run[OF refl, where vs = vs and k = k]
  by (simp add: loop_state split_def Let_def subject_dispatch_state subject_complete_state
        del: subscribe.simps)

end
